theory Spec2Isabelle
  imports Main "HOL-Library.Word" "HOL-Library.Sublist"
begin

section \<open>Nodes, the node store and the code tree\<close>

text \<open>
  A pointer to a node is an address in one node store. Addresses \<open>0..255\<close> are the
  elements of the array \<open>leaves[256]\<close> that lives inside the \<open>CodeTree\<close> object, so
  the address of \<open>leaves[i]\<close> is \<open>i\<close> and \<open>p - leaves\<close> is \<open>p\<close> itself. Every
  \<open>new Node\<close> (C: \<open>malloc\<close>) takes the next free address, \<open>length store\<close>. Nothing is
  ever freed. A null pointer is \<open>None\<close>. The field \<open>P\<close> (a probability, printed only)
  and the array \<open>sorted\<close> (used by the statistics report only) are left out.
\<close>

type_synonym ptr = nat

record Node =
  count :: int
  parent :: "ptr option"
  more_child :: "ptr option"
  less_child :: "ptr option"

record CodeTree =
  store :: "Node list"
  actives :: "ptr option list"
  root :: "ptr option"
  codes :: "string list"

text \<open>\<open>long\<close> is 64 bits wide (LP64); an addition that leaves its range wraps around.\<close>

definition LONG_MAX :: int where
  "LONG_MAX = 9223372036854775807"

definition long_add :: "int \<Rightarrow> int \<Rightarrow> int" where
  "long_add a b = (a + b + 2 ^ 63) mod 2 ^ 64 - 2 ^ 63"

text \<open>The constructor \<open>CodeTree::CodeTree\<close> (C: \<open>CodeTree_initialize\<close>).\<close>

definition CodeTree_initialize :: CodeTree where
  "CodeTree_initialize =
     \<lparr> store = replicate 256 \<lparr> count = 0, parent = None, more_child = None, less_child = None \<rparr>,
       actives = map Some [0..<256],
       root = None,
       codes = replicate 256 [] \<rparr>"

definition increment :: "CodeTree \<Rightarrow> nat \<Rightarrow> CodeTree" where
  "increment ct byte_value =
     ct \<lparr> store := (store ct) [byte_value :=
        (store ct ! byte_value) \<lparr> count := long_add (count (store ct ! byte_value)) 1 \<rparr>] \<rparr>"

definition set_count :: "CodeTree \<Rightarrow> nat \<Rightarrow> int \<Rightarrow> CodeTree" where
  "set_count ct byte_value c =
     ct \<lparr> store := (store ct) [byte_value := (store ct ! byte_value) \<lparr> count := c \<rparr>] \<rparr>"

definition get_count :: "CodeTree \<Rightarrow> nat \<Rightarrow> int" where
  "get_count ct byte_value = count (store ct ! byte_value)"

definition get_count_total :: "CodeTree \<Rightarrow> int" where
  "get_count_total ct = fold (\<lambda>i c. long_add c (count (store ct ! i))) [0..<256] 0"

definition get_code :: "CodeTree \<Rightarrow> nat \<Rightarrow> string" where
  "get_code ct byte_value = codes ct ! byte_value"

section \<open>Tree construction\<close>

text \<open>
  An \<open>int\<close> variable that holds a slot index. \<open>build_tree\<close> declares \<open>smallest\<close> and
  \<open>next_smallest\<close> without a value and \<open>find_smallest\<close> only assigns them when it finds
  a candidate, so a variable that was never assigned is \<open>None\<close>.
\<close>

type_synonym index = "nat option"

datatype error = Uninitialized_index | Null_pointer | No_return

text \<open>One pass of the loop body of \<open>find_smallest\<close>, for slot \<open>index\<close>.\<close>

definition find_smallest_step ::
  "CodeTree \<Rightarrow> nat \<Rightarrow> int \<times> int \<times> index \<times> index \<Rightarrow> int \<times> int \<times> index \<times> index" where
  "find_smallest_step ct index =
     (\<lambda>(smallest_value, next_smallest_value, smallest_index, next_smallest_index).
        case actives ct ! index of
          None \<Rightarrow> (smallest_value, next_smallest_value, smallest_index, next_smallest_index)
        | Some p \<Rightarrow>
            if count (store ct ! p) < smallest_value
            then (count (store ct ! p), smallest_value, Some index, smallest_index)
            else if count (store ct ! p) < next_smallest_value
            then (smallest_value, count (store ct ! p), smallest_index, Some index)
            else (smallest_value, next_smallest_value, smallest_index, next_smallest_index))"

definition find_smallest :: "CodeTree \<Rightarrow> index \<times> index \<Rightarrow> index \<times> index" where
  "find_smallest ct =
     (\<lambda>(smallest_index, next_smallest_index).
        snd (snd (fold (find_smallest_step ct) [0..<256]
          (LONG_MAX, LONG_MAX, smallest_index, next_smallest_index))))"

text \<open>
  One pass of the loop body of \<open>build_tree\<close>: the scan, the new node, the assignment of
  its children, the parent links and the update of \<open>actives\<close>.
\<close>

definition merge_step :: "CodeTree \<times> index \<times> index \<Rightarrow> error + CodeTree \<times> index \<times> index" where
  "merge_step = (\<lambda>(ct, smallest0, next_smallest0).
     case find_smallest ct (smallest0, next_smallest0) of
       (Some smallest, Some next_smallest) \<Rightarrow>
         (case (actives ct ! smallest, actives ct ! next_smallest) of
            (Some ps, Some pn) \<Rightarrow>
              let new_node = length (store ct);
                  lower = (if smallest < next_smallest then smallest else next_smallest);
                  higher = (if smallest < next_smallest then next_smallest else smallest);
                  nd = \<lparr> count = long_add (count (store ct ! ps)) (count (store ct ! pn)),
                         parent = None,
                         more_child =
                           (if count (store ct ! ps) \<noteq> count (store ct ! pn)
                            then actives ct ! next_smallest else actives ct ! higher),
                         less_child =
                           (if count (store ct ! ps) \<noteq> count (store ct ! pn)
                            then actives ct ! smallest else actives ct ! lower) \<rparr>;
                  st1 = store ct @ [nd];
                  st2 = st1 [ps := (st1 ! ps) \<lparr> parent := Some new_node \<rparr>];
                  st3 = st2 [pn := (st2 ! pn) \<lparr> parent := Some new_node \<rparr>];
                  act = (if smallest < next_smallest
                         then (actives ct) [smallest := Some new_node, next_smallest := None]
                         else (actives ct) [next_smallest := Some new_node, smallest := None])
              in Inr (ct \<lparr> store := st3, actives := act, root := Some new_node \<rparr>,
                      Some smallest, Some next_smallest)
          | _ \<Rightarrow> Inl Null_pointer)
     | _ \<Rightarrow> Inl Uninitialized_index)"

fun build_tree_loop :: "nat \<Rightarrow> CodeTree \<times> index \<times> index \<Rightarrow> error + CodeTree" where
  "build_tree_loop item_count s =
     (if item_count > 1
      then (case merge_step s of Inl e \<Rightarrow> Inl e | Inr s' \<Rightarrow> build_tree_loop (item_count - 1) s')
      else Inr (fst s))"

definition build_tree :: "CodeTree \<Rightarrow> error + CodeTree" where
  "build_tree ct = build_tree_loop 256 (ct, None, None)"

section \<open>Code derivation\<close>

text \<open>
  The inner loop of \<open>build_codes\<close>: from \<open>current\<close> follow the parent links up to a
  node without parent, appending a digit for each link. It returns when it reaches such a
  node; \<open>None\<close> stands for a walk that never ends.
\<close>

partial_function (option) walk_up :: "Node list \<Rightarrow> ptr \<Rightarrow> string \<Rightarrow> string option" where
  "walk_up st current code =
     (case parent (st ! current) of
        None \<Rightarrow> Some code
      | Some p \<Rightarrow>
          walk_up st p
            (let code1 = (if more_child (st ! p) = Some current then code @ ''1'' else code)
             in (if less_child (st ! p) = Some current then code1 @ ''0'' else code1)))"

declare walk_up.simps [code]

fun build_codes_loop :: "Node list \<Rightarrow> nat list \<Rightarrow> string list \<Rightarrow> string list option" where
  "build_codes_loop st [] cs = Some cs"
| "build_codes_loop st (index # rest) cs =
     (case walk_up st index (cs ! index) of
        None \<Rightarrow> None
      | Some code \<Rightarrow> build_codes_loop st rest (cs [index := rev code]))"

definition build_codes :: "CodeTree \<Rightarrow> error + CodeTree" where
  "build_codes ct =
     (case build_codes_loop (store ct) [0..<256] (codes ct) of
        None \<Rightarrow> Inl No_return
      | Some cs \<Rightarrow> Inr (ct \<lparr> codes := cs \<rparr>))"

section \<open>The tree walker\<close>

record Walker =
  tree :: CodeTree
  current :: "ptr option"

definition Walker_init :: "CodeTree \<Rightarrow> Walker" where
  "Walker_init huffman = \<lparr> tree = huffman, current = root huffman \<rparr>"

text \<open>
  \<open>process_bit\<close> is two \<open>if\<close> statements in sequence; each one that fires reads a
  field of \<open>*current\<close>.
\<close>

definition process_bit :: "Walker \<Rightarrow> int \<Rightarrow> error + Walker" where
  "process_bit w bit_value =
     (case (if bit_value = 1
            then (case current w of
                    None \<Rightarrow> Inl Null_pointer
                  | Some c \<Rightarrow> Inr (w \<lparr> current := more_child (store (tree w) ! c) \<rparr>))
            else Inr w) of
        Inl e \<Rightarrow> Inl e
      | Inr w1 \<Rightarrow>
          (if bit_value = 0
           then (case current w1 of
                   None \<Rightarrow> Inl Null_pointer
                 | Some c \<Rightarrow> Inr (w1 \<lparr> current := less_child (store (tree w1) ! c) \<rparr>))
           else Inr w1))"

text \<open>
  \<open>code_finished\<close> returns \<open>-1\<close> at a node with a \<open>more\<close> child; otherwise it returns
  \<open>current - tree->leaves\<close> and moves the walker back to the root.
\<close>

definition code_finished :: "Walker \<Rightarrow> error + int \<times> Walker" where
  "code_finished w =
     (case current w of
        None \<Rightarrow> Inl Null_pointer
      | Some c \<Rightarrow>
          if more_child (store (tree w) ! c) \<noteq> None then Inr (- 1, w)
          else Inr (int c, w \<lparr> current := root (tree w) \<rparr>))"

section \<open>The two programs\<close>

type_synonym byte = "8 word"

text \<open>
  Modelled from the spec: the bit file (\<open>BitFile\<close>: \<open>put_bit\<close>, \<open>get_bit\<close>,
  \<open>write_bitheader\<close>, \<open>read_bitheader\<close>, \<open>close_bit\<close>) is not among the sources. A
  compressed file is the header, 256 counts, and the body, the bits in the order they were
  written; \<open>get_bit\<close> returns them in that order and then \<open>EOF\<close>. When the number of
  bits written is not a multiple of 8, \<open>close_bit\<close> fills the last byte with bits whose
  value is not specified: they are taken from \<open>fill\<close>.
\<close>

record BitFile =
  header :: "int list"
  body :: "bool list"

definition close_bit :: "(nat \<Rightarrow> bool) \<Rightarrow> BitFile \<Rightarrow> BitFile" where
  "close_bit fill f =
     f \<lparr> body := body f @ map fill [0..<(8 - length (body f) mod 8) mod 8] \<rparr>"

text \<open>\<open>analysis\<close> of huff: count every byte of the input.\<close>

definition huff_analysis :: "CodeTree \<Rightarrow> byte list \<Rightarrow> CodeTree" where
  "huff_analysis huffman infile = fold (\<lambda>ch ct. increment ct (unat ch)) infile huffman"

text \<open>
  \<open>compress\<close>: the counts go to the header, then every input byte's code is written
  digit by digit, a \<open>0\<close> bit for the digit \<open>'0'\<close> and a \<open>1\<close> bit for any other.
\<close>

definition compress :: "CodeTree \<Rightarrow> byte list \<Rightarrow> (nat \<Rightarrow> bool) \<Rightarrow> BitFile" where
  "compress huffman infile fill =
     close_bit fill
       \<lparr> header = map (get_count huffman) [0..<256],
         body = concat (map (\<lambda>ch. map (\<lambda>digit. digit \<noteq> CHR ''0'') (get_code huffman (unat ch)))
                  infile) \<rparr>"

definition huff :: "byte list \<Rightarrow> (nat \<Rightarrow> bool) \<Rightarrow> error + BitFile" where
  "huff infile fill =
     (case build_tree (huff_analysis CodeTree_initialize infile) of
        Inl e \<Rightarrow> Inl e
      | Inr ct \<Rightarrow>
          (case build_codes ct of
             Inl e \<Rightarrow> Inl e
           | Inr huffman \<Rightarrow> Inr (compress huffman infile fill)))"

text \<open>\<open>analysis\<close> of puff: the counts are set from the header.\<close>

definition puff_analysis :: "CodeTree \<Rightarrow> int list \<Rightarrow> CodeTree" where
  "puff_analysis huffman counts = fold (\<lambda>i ct. set_count ct i (counts ! i)) [0..<256] huffman"

text \<open>
  The loop of \<open>decompress\<close>: one pass for each bit until \<open>get_bit\<close> returns \<open>EOF\<close>,
  left early when \<open>++count == total_count\<close>. \<open>putc\<close> writes the value as an
  \<open>unsigned char\<close>.
\<close>

fun decompress_loop ::
  "int \<Rightarrow> bool list \<Rightarrow> Walker \<Rightarrow> int \<Rightarrow> byte list \<Rightarrow> error + byte list" where
  "decompress_loop total_count [] decoder cnt outfile = Inr outfile"
| "decompress_loop total_count (ch # infile) decoder cnt outfile =
     (case process_bit decoder (if ch then 1 else 0) of
        Inl e \<Rightarrow> Inl e
      | Inr d1 \<Rightarrow>
          (case code_finished d1 of
             Inl e \<Rightarrow> Inl e
           | Inr (byte_value, d2) \<Rightarrow>
               if byte_value \<noteq> - 1
               then (if long_add cnt 1 = total_count
                     then Inr (outfile @ [word_of_int byte_value])
                     else decompress_loop total_count infile d2 (long_add cnt 1)
                            (outfile @ [word_of_int byte_value]))
               else decompress_loop total_count infile d2 cnt outfile))"

definition decompress :: "CodeTree \<Rightarrow> bool list \<Rightarrow> error + byte list" where
  "decompress huffman infile =
     decompress_loop (get_count_total huffman) infile (Walker_init huffman) 0 []"

definition puff :: "BitFile \<Rightarrow> error + byte list" where
  "puff infile =
     (case build_tree (puff_analysis CodeTree_initialize (header infile)) of
        Inl e \<Rightarrow> Inl e
      | Inr ct \<Rightarrow>
          (case build_codes ct of
             Inl e \<Rightarrow> Inl e
           | Inr huffman \<Rightarrow> decompress huffman (body infile)))"

section \<open>Notions used to state the properties\<close>

text \<open>
  Slot \<open>i\<close> of \<open>actives\<close> is active when it holds a node; its weight is that node's
  count. \<open>first_min ct A s\<close>: among the slots \<open>A\<close>, \<open>s\<close> has the least weight, and the
  least index among those of that weight.
\<close>

definition active :: "CodeTree \<Rightarrow> nat \<Rightarrow> bool" where
  "active ct i \<longleftrightarrow> i < 256 \<and> actives ct ! i \<noteq> None"

definition slot_weight :: "CodeTree \<Rightarrow> nat \<Rightarrow> int" where
  "slot_weight ct i = count (store ct ! the (actives ct ! i))"

definition first_min :: "CodeTree \<Rightarrow> nat set \<Rightarrow> nat \<Rightarrow> bool" where
  "first_min ct A s \<longleftrightarrow>
     s \<in> A \<and> (\<forall>i\<in>A. slot_weight ct s \<le> slot_weight ct i \<and>
                   (slot_weight ct i = slot_weight ct s \<longrightarrow> s \<le> i))"

definition seen :: "CodeTree \<Rightarrow> nat \<Rightarrow> nat set" where
  "seen ct k = {i. i < k \<and> actives ct ! i \<noteq> None}"

definition scan_inv :: "CodeTree \<Rightarrow> nat \<Rightarrow> int \<times> int \<times> index \<times> index \<Rightarrow> bool" where
  "scan_inv ct k = (\<lambda>(sv, nsv, si, nsi).
     (seen ct k = {} \<and> sv = LONG_MAX \<and> nsv = LONG_MAX) \<or>
     (\<exists>s. seen ct k = {s} \<and> si = Some s \<and> sv = slot_weight ct s \<and> nsv = LONG_MAX) \<or>
     (\<exists>s n. s \<noteq> n \<and> si = Some s \<and> nsi = Some n \<and> sv = slot_weight ct s \<and> nsv = slot_weight ct n \<and>
        first_min ct (seen ct k) s \<and> first_min ct (seen ct k - {s}) n))"

text \<open>
  Two conditions on the state that \<open>find_smallest\<close> and \<open>build_tree\<close> read: every
  active weight lies below \<open>LONG_MAX\<close>, the value the scan starts from, and every active
  pointer is the address of a node of the store. \<open>table cs\<close> is a fresh tree whose leaf
  counts are \<open>cs\<close>.
\<close>

definition below_LONG_MAX :: "CodeTree \<Rightarrow> bool" where
  "below_LONG_MAX ct \<longleftrightarrow> (\<forall>i. active ct i \<longrightarrow> slot_weight ct i < LONG_MAX)"

definition actives_valid :: "CodeTree \<Rightarrow> bool" where
  "actives_valid ct \<longleftrightarrow> (\<forall>i p. active ct i \<and> actives ct ! i = Some p \<longrightarrow> p < length (store ct))"

definition leaf :: "int \<Rightarrow> Node" where
  "leaf c = \<lparr> count = c, parent = None, more_child = None, less_child = None \<rparr>"

definition table :: "int list \<Rightarrow> CodeTree" where
  "table cs = CodeTree_initialize \<lparr> store := map leaf cs \<rparr>"

text \<open>
  The shape of the part of the store below one node: \<open>Leaf i w\<close> is \<open>leaves[i]\<close> with
  count \<open>w\<close>, \<open>Br a w l m\<close> is the node at address \<open>a\<close> with count \<open>w\<close>, whose
  \<open>less\<close> pointer leads to \<open>l\<close> and whose \<open>more\<close> pointer leads to \<open>m\<close>.
  \<open>tree_ok st par t\<close> says that the store \<open>st\<close> holds exactly this shape, every node
  below the top pointing back at its parent and the top at \<open>par\<close>.
\<close>

datatype hufftree = Leaf nat int | Br ptr int hufftree hufftree

fun addr :: "hufftree \<Rightarrow> ptr" where
  "addr (Leaf i w) = i"
| "addr (Br a w l m) = a"

fun weight :: "hufftree \<Rightarrow> int" where
  "weight (Leaf i w) = w"
| "weight (Br a w l m) = w"

fun addrs :: "hufftree \<Rightarrow> ptr set" where
  "addrs (Leaf i w) = {i}"
| "addrs (Br a w l m) = insert a (addrs l \<union> addrs m)"

fun tree_ok :: "Node list \<Rightarrow> ptr option \<Rightarrow> hufftree \<Rightarrow> bool" where
  "tree_ok st par (Leaf i w) \<longleftrightarrow>
     i < 256 \<and> i < length st \<and>
     st ! i = \<lparr> count = w, parent = par, more_child = None, less_child = None \<rparr>"
| "tree_ok st par (Br a w l m) \<longleftrightarrow>
     256 \<le> a \<and> a < length st \<and>
     st ! a = \<lparr> count = w, parent = par, more_child = Some (addr m), less_child = Some (addr l) \<rparr> \<and>
     tree_ok st (Some a) l \<and> tree_ok st (Some a) m"

fun wf_tree :: "hufftree \<Rightarrow> bool" where
  "wf_tree (Leaf i w) \<longleftrightarrow> True"
| "wf_tree (Br a w l m) \<longleftrightarrow>
     a \<notin> addrs l \<and> a \<notin> addrs m \<and> addrs l \<inter> addrs m = {} \<and> wf_tree l \<and> wf_tree m"

text \<open>
  \<open>forest_rel ct f\<close>: the active slots of \<open>ct\<close> hold the tops of the trees \<open>f\<close>, which
  are laid out in the store, share no node and together hold every node of the store.
\<close>

definition forest_rel :: "CodeTree \<Rightarrow> hufftree option list \<Rightarrow> bool" where
  "forest_rel ct f \<longleftrightarrow>
     length f = 256 \<and> 256 \<le> length (store ct) \<and> actives ct = map (map_option addr) f \<and>
     (\<forall>i<256. \<forall>t. f ! i = Some t \<longrightarrow> tree_ok (store ct) None t \<and> wf_tree t) \<and>
     (\<forall>i<256. \<forall>j<256. \<forall>t u. i \<noteq> j \<and> f ! i = Some t \<and> f ! j = Some u \<longrightarrow> addrs t \<inter> addrs u = {}) \<and>
     (\<forall>a<length (store ct). \<exists>i<256. \<exists>t. f ! i = Some t \<and> a \<in> addrs t)"

text \<open>The forest after one merge of the trees in the slots \<open>s\<close> and \<open>n\<close>.\<close>

definition a_merge :: "hufftree option list \<Rightarrow> nat \<Rightarrow> nat \<Rightarrow> ptr \<Rightarrow> hufftree option list" where
  "a_merge f s n new =
     (case (f ! s, f ! n) of
        (Some ts, Some tn) \<Rightarrow>
          (let t = (if weight ts \<noteq> weight tn \<or> s < n
                    then Br new (weight ts + weight tn) ts tn
                    else Br new (weight ts + weight tn) tn ts)
           in if s < n then f [s := Some t, n := None] else f [n := Some t, s := None])
      | _ \<Rightarrow> f)"

text \<open>
  What the loop of \<open>build_tree\<close> keeps: the forest is laid out in the store, no weight is
  negative and the weights of the active slots add up to \<open>T\<close>.
\<close>

fun wt :: "hufftree option \<Rightarrow> int" where
  "wt None = 0"
| "wt (Some t) = weight t"

definition build_inv :: "int \<Rightarrow> CodeTree \<Rightarrow> hufftree option list \<Rightarrow> bool" where
  "build_inv T ct f \<longleftrightarrow>
     forest_rel ct f \<and> (\<forall>i<256. 0 \<le> wt (f ! i)) \<and> (\<Sum>i<256. wt (f ! i)) = T"

definition occupied :: "hufftree option list \<Rightarrow> nat set" where
  "occupied f = {i. i < 256 \<and> f ! i \<noteq> None}"

text \<open>A frequency table: 256 counts, none negative, whose sum a \<open>long\<close> below \<open>LONG_MAX\<close> holds.\<close>

definition valid_counts :: "int list \<Rightarrow> bool" where
  "valid_counts cs \<longleftrightarrow> length cs = 256 \<and> (\<forall>c\<in>set cs. 0 \<le> c) \<and> sum_list cs < LONG_MAX"

definition forest0 :: "int list \<Rightarrow> hufftree option list" where
  "forest0 cs = map (\<lambda>i. Some (Leaf i (cs ! i))) [0..<256]"

declare build_tree_loop.simps [simp del]

text \<open>
  The leaves of a shape, its numbers of leaves and of inner nodes, and the digits read on the
  way from its top down to the node at address \<open>a\<close>: \<open>0\<close> for a step to the \<open>less\<close>
  child, \<open>1\<close> for a step to the \<open>more\<close> child.
\<close>

fun leaf_addrs :: "hufftree \<Rightarrow> ptr set" where
  "leaf_addrs (Leaf i w) = {i}"
| "leaf_addrs (Br a w l m) = leaf_addrs l \<union> leaf_addrs m"

fun leaf_nodes :: "hufftree \<Rightarrow> nat" where
  "leaf_nodes (Leaf i w) = 1"
| "leaf_nodes (Br a w l m) = leaf_nodes l + leaf_nodes m"

fun internal_nodes :: "hufftree \<Rightarrow> nat" where
  "internal_nodes (Leaf i w) = 0"
| "internal_nodes (Br a w l m) = Suc (internal_nodes l + internal_nodes m)"

fun path :: "hufftree \<Rightarrow> ptr \<Rightarrow> string" where
  "path (Leaf i w) a = []"
| "path (Br b w l m) a =
     (if a = b then [] else if a \<in> addrs l then CHR ''0'' # path l a else CHR ''1'' # path m a)"

text \<open>The bits \<open>compress\<close> writes for a code, and the bytes \<open>putc\<close> writes for symbols.\<close>

definition bits_of :: "string \<Rightarrow> bool list" where
  "bits_of code = map (\<lambda>digit. digit \<noteq> CHR ''0'') code"

text \<open>
  The merges seen on the forest alone. Slot \<open>i\<close> comes before slot \<open>j\<close> when its weight is
  smaller, or equal with \<open>i < j\<close>. One merge takes the first slot \<open>s\<close> in this order and
  the first of the others \<open>n\<close>; the new node gets the next free address, which is
  \<open>512\<close> less the number of occupied slots.
\<close>

definition before :: "hufftree option list \<Rightarrow> nat \<Rightarrow> nat \<Rightarrow> bool" where
  "before f i j \<longleftrightarrow> wt (f ! i) < wt (f ! j) \<or> (wt (f ! i) = wt (f ! j) \<and> i < j)"

definition fmin :: "hufftree option list \<Rightarrow> nat set \<Rightarrow> nat \<Rightarrow> bool" where
  "fmin f A s \<longleftrightarrow> s \<in> A \<and> (\<forall>i\<in>A. i \<noteq> s \<longrightarrow> before f s i)"

definition merge_rel :: "hufftree option list \<Rightarrow> hufftree option list \<Rightarrow> bool" where
  "merge_rel f f' \<longleftrightarrow>
     (\<exists>s n. fmin f (occupied f) s \<and> fmin f (occupied f - {s}) n \<and>
            f' = a_merge f s n (512 - card (occupied f)))"

fun merges :: "nat \<Rightarrow> hufftree option list \<Rightarrow> hufftree option list \<Rightarrow> bool" where
  "merges 0 f g \<longleftrightarrow> g = f"
| "merges (Suc k) f g \<longleftrightarrow> (\<exists>f'. merges k f f' \<and> merge_rel f' g)"

text \<open>
  What both programs do once the counts are in place: \<open>build_tree\<close>, then \<open>build_codes\<close>.
\<close>

definition huffman :: "int list \<Rightarrow> error + CodeTree" where
  "huffman counts =
     (case build_tree (puff_analysis CodeTree_initialize counts) of
        Inl e \<Rightarrow> Inl e
      | Inr ct \<Rightarrow> build_codes ct)"

text \<open>A tree of two leaves under one root, to run the walker on.\<close>

definition two_leaves :: CodeTree where
  "two_leaves =
     \<lparr> store = [\<lparr> count = 1, parent = Some 2, more_child = None, less_child = None \<rparr>,
                \<lparr> count = 2, parent = Some 2, more_child = None, less_child = None \<rparr>,
                \<lparr> count = 3, parent = None, more_child = Some 1, less_child = Some 0 \<rparr>],
       actives = [Some 2, None], root = Some 2, codes = [''0'', ''1''] \<rparr>"

section \<open>The minimum scan\<close>

lemma seen_0: "seen ct 0 = {}"
  by (simp add: seen_def)

lemma seen_Suc:
  "seen ct (Suc k) = (if actives ct ! k \<noteq> None then insert k (seen ct k) else seen ct k)"
  by (auto simp: seen_def less_Suc_eq)

lemma seen_less: "i \<in> seen ct k \<Longrightarrow> i < k"
  by (simp add: seen_def)

lemma first_min_new:
  assumes "first_min ct B n" "slot_weight ct k < slot_weight ct n"
  shows "first_min ct (insert k B) k"
proof -
  have "slot_weight ct k \<le> slot_weight ct i \<and>
      (slot_weight ct i = slot_weight ct k \<longrightarrow> k \<le> i)" if "i \<in> insert k B" for i
  proof -
    have "i = k \<or> slot_weight ct n \<le> slot_weight ct i"
      using assms(1) that by (auto simp: first_min_def)
    then show ?thesis using assms(2) by auto
  qed
  then show ?thesis by (simp add: first_min_def)
qed

lemma scan_inv_step:
  assumes inv: "scan_inv ct k st"
    and lt: "actives ct ! k \<noteq> None \<longrightarrow> slot_weight ct k < LONG_MAX"
  shows "scan_inv ct (Suc k) (find_smallest_step ct k st)"
proof (cases "actives ct ! k")
  case None
  with inv show ?thesis
    by (cases st) (simp add: find_smallest_step_def scan_inv_def seen_Suc)
next
  case (Some p)
  obtain sv nsv si nsi where st: "st = (sv, nsv, si, nsi)" by (cases st) auto
  have w: "count (store ct ! p) = slot_weight ct k" by (simp add: slot_weight_def Some)
  have wlt: "slot_weight ct k < LONG_MAX" using lt Some by simp
  have S: "seen ct (Suc k) = insert k (seen ct k)" by (simp add: seen_Suc Some)
  have knew: "k \<notin> seen ct k" by (auto dest: seen_less)
  from inv st consider
      (empty) "seen ct k = {}" "sv = LONG_MAX" "nsv = LONG_MAX"
    | (one) s where "seen ct k = {s}" "si = Some s" "sv = slot_weight ct s" "nsv = LONG_MAX"
    | (two) s n where "s \<noteq> n" "si = Some s" "nsi = Some n" "sv = slot_weight ct s"
        "nsv = slot_weight ct n" "first_min ct (seen ct k) s" "first_min ct (seen ct k - {s}) n"
    by (auto simp: scan_inv_def)
  then show ?thesis
  proof cases
    case empty
    then show ?thesis using wlt
      by (simp add: st find_smallest_step_def Some w scan_inv_def S)
  next
    case one
    have sk: "s < k" using one(1) seen_less[of s ct k] by simp
    show ?thesis
    proof (cases "slot_weight ct k < slot_weight ct s")
      case True
      have "first_min ct (insert k {s}) k" using True by (auto simp: first_min_def)
      moreover have "first_min ct (insert k {s} - {k}) s" using sk by (auto simp: first_min_def)
      ultimately show ?thesis using True one sk
        by (auto simp: st find_smallest_step_def Some w scan_inv_def S)
    next
      case False
      have "first_min ct (insert k {s}) s" using False sk by (auto simp: first_min_def)
      moreover have "first_min ct (insert k {s} - {s}) k" using sk by (auto simp: first_min_def)
      ultimately show ?thesis using False one sk wlt
        by (auto simp: st find_smallest_step_def Some w scan_inv_def S)
    qed
  next
    case two
    have sk: "s < k" and nk: "n < k" using two(6,7) seen_less[of _ ct k]
      by (auto simp: first_min_def)
    show ?thesis
    proof (cases "slot_weight ct k < slot_weight ct s")
      case True
      have "first_min ct (insert k (seen ct k)) k" using True two(6)
        by (rule first_min_new[rotated])
      moreover have "insert k (seen ct k) - {k} = seen ct k" using knew by auto
      ultimately show ?thesis using True two sk
        by (auto simp: st find_smallest_step_def Some w scan_inv_def S)
    next
      case False
      note nlt = False
      have fs: "first_min ct (insert k (seen ct k)) s" using False two(6) sk
        by (auto simp: first_min_def)
      have eq: "insert k (seen ct k) - {s} = insert k (seen ct k - {s})" using sk by auto
      show ?thesis
      proof (cases "slot_weight ct k < slot_weight ct n")
        case True
        have "first_min ct (insert k (seen ct k - {s})) k" using True two(7)
          by (rule first_min_new[rotated])
        then show ?thesis using True nlt two sk fs eq
          by (auto simp: st find_smallest_step_def Some w scan_inv_def S)
      next
        case False
        have "first_min ct (insert k (seen ct k - {s})) n" using False two(7) nk
          by (auto simp: first_min_def)
        then show ?thesis using False nlt two sk fs eq
          by (auto simp: st find_smallest_step_def Some w scan_inv_def S)
      qed
    qed
  qed
qed

lemma scan_inv_fold:
  assumes "\<forall>i<k. actives ct ! i \<noteq> None \<longrightarrow> slot_weight ct i < LONG_MAX"
  shows "scan_inv ct k (fold (find_smallest_step ct) [0..<k] (LONG_MAX, LONG_MAX, si, nsi))"
  using assms
proof (induction k)
  case 0
  show ?case by (simp add: scan_inv_def seen_0)
next
  case (Suc k)
  then show ?case by (simp add: scan_inv_step)
qed

lemma find_smallest_char:
  assumes two: "i \<noteq> j" "active ct i" "active ct j"
    and lt: "\<forall>i. active ct i \<longrightarrow> slot_weight ct i < LONG_MAX"
  shows "\<exists>s n. find_smallest ct ix = (Some s, Some n) \<and> s \<noteq> n \<and>
           first_min ct {i. active ct i} s \<and> first_min ct ({i. active ct i} - {s}) n"
proof -
  obtain si nsi where ix: "ix = (si, nsi)" by (cases ix)
  have A: "seen ct 256 = {i. active ct i}" by (auto simp: seen_def active_def)
  have "scan_inv ct 256 (fold (find_smallest_step ct) [0..<256] (LONG_MAX, LONG_MAX, si, nsi))"
    using lt by (intro scan_inv_fold) (auto simp: active_def)
  moreover have "{i. active ct i} \<noteq> {}" using two by auto
  moreover have "\<And>s. {i. active ct i} \<noteq> {s}" using two by (metis mem_Collect_eq singletonD)
  ultimately show ?thesis
    by (cases "fold (find_smallest_step ct) [0..<256] (LONG_MAX, LONG_MAX, si, nsi)")
       (auto simp: scan_inv_def A find_smallest_def ix)
qed

lemma table_simps:
  "store (table cs) = map leaf cs" "actives (table cs) = map Some [0..<256]"
  "root (table cs) = None" "codes (table cs) = replicate 256 []"
  by (simp_all add: table_def CodeTree_initialize_def)

lemma active_table: "active (table cs) i \<longleftrightarrow> i < 256"
  by (auto simp: active_def table_simps)

lemma slot_weight_table: "i < 256 \<Longrightarrow> i < length cs \<Longrightarrow> slot_weight (table cs) i = cs ! i"
  by (simp add: slot_weight_def table_simps leaf_def)

text \<open>
  C2. Let at least two slots be active and every active weight be below \<open>LONG_MAX\<close>.
  Whatever the two index variables held before, \<open>find_smallest\<close> returns two distinct
  active slots \<open>s\<close> and \<open>n\<close>: \<open>s\<close> has the least weight of all active slots and is
  the lowest-indexed slot of that weight; \<open>n\<close> has the least weight of the active slots
  other than \<open>s\<close> and is the lowest-indexed such slot of that weight (it may share the
  weight of \<open>s\<close> or hold a larger one). In the scan, a slot whose weight equals the current
  minimum leaves the minimum and its index as they are.
\<close>

theorem find_smallest_tie_break:
  assumes "i \<noteq> j" "active ct i" "active ct j" "below_LONG_MAX ct"
  shows "(\<exists>s n. find_smallest ct ix = (Some s, Some n) \<and> s \<noteq> n \<and> active ct s \<and> active ct n \<and>
            (\<forall>i. active ct i \<longrightarrow> slot_weight ct s \<le> slot_weight ct i) \<and>
            (\<forall>i. active ct i \<and> slot_weight ct i = slot_weight ct s \<longrightarrow> s \<le> i) \<and>
            (\<forall>i. active ct i \<and> i \<noteq> s \<longrightarrow> slot_weight ct n \<le> slot_weight ct i) \<and>
            (\<forall>i. active ct i \<and> i \<noteq> s \<and> slot_weight ct i = slot_weight ct n \<longrightarrow> n \<le> i)) \<and>
         (\<forall>k p sv nsv si nsi. actives ct ! k = Some p \<and> count (store ct ! p) = sv \<longrightarrow>
            (\<exists>nsv' nsi'. find_smallest_step ct k (sv, nsv, si, nsi) = (sv, nsv', si, nsi')))"
proof
  from find_smallest_char[OF assms(1-3), of ix] assms(4)
  obtain s n where sn: "find_smallest ct ix = (Some s, Some n)" "s \<noteq> n"
      "first_min ct {i. active ct i} s" "first_min ct ({i. active ct i} - {s}) n"
    by (auto simp: below_LONG_MAX_def)
  show "\<exists>s n. find_smallest ct ix = (Some s, Some n) \<and> s \<noteq> n \<and> active ct s \<and> active ct n \<and>
            (\<forall>i. active ct i \<longrightarrow> slot_weight ct s \<le> slot_weight ct i) \<and>
            (\<forall>i. active ct i \<and> slot_weight ct i = slot_weight ct s \<longrightarrow> s \<le> i) \<and>
            (\<forall>i. active ct i \<and> i \<noteq> s \<longrightarrow> slot_weight ct n \<le> slot_weight ct i) \<and>
            (\<forall>i. active ct i \<and> i \<noteq> s \<and> slot_weight ct i = slot_weight ct n \<longrightarrow> n \<le> i)"
    using sn by (intro exI[of _ s] exI[of _ n]) (auto simp: first_min_def)
next
  show "\<forall>k p sv nsv si nsi. actives ct ! k = Some p \<and> count (store ct ! p) = sv \<longrightarrow>
            (\<exists>nsv' nsi'. find_smallest_step ct k (sv, nsv, si, nsi) = (sv, nsv', si, nsi'))"
    by (auto simp: find_smallest_step_def)
qed

theorem find_smallest_tie_break_witness:
  "active (table ((replicate 256 5) [7 := 1, 3 := 1])) 0 \<and>
   active (table ((replicate 256 5) [7 := 1, 3 := 1])) 1 \<and>
   below_LONG_MAX (table ((replicate 256 5) [7 := 1, 3 := 1])) \<and>
   find_smallest (table ((replicate 256 5) [7 := 1, 3 := 1])) (None, None) = (Some 3, Some 7)"
proof -
  let ?cs = "(replicate 256 (5::int)) [7 := 1, 3 := 1]"
  let ?ct = "table ?cs"
  have w: "slot_weight ?ct i = (if i = 3 \<or> i = 7 then 1 else 5)" if "i < 256" for i
    using that by (simp add: slot_weight_table nth_list_update)
  have a0: "active ?ct 0" and a1: "active ?ct 1" by (simp_all add: active_table)
  have lt: "below_LONG_MAX ?ct"
    by (auto simp: below_LONG_MAX_def active_table w LONG_MAX_def)
  from find_smallest_tie_break[of 0 1 ?ct "(None, None)"] a0 a1 lt
  obtain s n where sn: "find_smallest ?ct (None, None) = (Some s, Some n)" "s \<noteq> n"
    "active ?ct s" "active ?ct n"
    "\<forall>i. active ?ct i \<longrightarrow> slot_weight ?ct s \<le> slot_weight ?ct i"
    "\<forall>i. active ?ct i \<and> slot_weight ?ct i = slot_weight ?ct s \<longrightarrow> s \<le> i"
    "\<forall>i. active ?ct i \<and> i \<noteq> s \<longrightarrow> slot_weight ?ct n \<le> slot_weight ?ct i"
    "\<forall>i. active ?ct i \<and> i \<noteq> s \<and> slot_weight ?ct i = slot_weight ?ct n \<longrightarrow> n \<le> i"
    by auto
  have s256: "s < 256" and n256: "n < 256" using sn(3,4) by (simp_all add: active_table)
  have "slot_weight ?ct s \<le> slot_weight ?ct 3" using sn(5) by (simp add: active_table)
  then have s37: "s = 3 \<or> s = 7" using s256 by (simp add: w split: if_splits)
  have "s \<le> 3" using sn(6)[rule_format, of 3] s37 s256 by (simp add: active_table w)
  then have s: "s = 3" using s37 by simp
  have "slot_weight ?ct n \<le> slot_weight ?ct 7" using sn(7)[rule_format, of 7] s
    by (simp add: active_table)
  then have "n = 3 \<or> n = 7" using n256 by (simp add: w split: if_splits)
  then have "n = 7" using sn(2) s by simp
  then show ?thesis using sn(1) s a0 a1 lt by simp
qed

lemma addr_in_addrs: "addr t \<in> addrs t"
  by (cases t) auto

lemma tree_ok_lt: "tree_ok st par t \<Longrightarrow> a \<in> addrs t \<Longrightarrow> a < length st"
  by (induction t arbitrary: par) auto

lemma tree_ok_top:
  "tree_ok st par t \<Longrightarrow> count (st ! addr t) = weight t \<and> parent (st ! addr t) = par"
  by (cases t) auto

lemma tree_ok_frame:
  "tree_ok st par t \<Longrightarrow> length st \<le> length st' \<Longrightarrow> \<forall>a\<in>addrs t. st' ! a = st ! a \<Longrightarrow>
   tree_ok st' par t"
  by (induction t arbitrary: par) auto

lemma tree_ok_reparent:
  assumes ok: "tree_ok st par t" and wf: "wf_tree t" and len: "length st \<le> length st'"
    and top: "st' ! addr t = (st ! addr t) \<lparr> parent := par' \<rparr>"
    and rest: "\<forall>a\<in>addrs t. a \<noteq> addr t \<longrightarrow> st' ! a = st ! a"
  shows "tree_ok st' par' t"
proof (cases t)
  case (Leaf i w)
  with ok len top show ?thesis by simp
next
  case (Br a w l m)
  have "\<forall>b\<in>addrs l. st' ! b = st ! b" "\<forall>b\<in>addrs m. st' ! b = st ! b"
    using rest wf unfolding Br by auto
  moreover have "tree_ok st (Some a) l" "tree_ok st (Some a) m" using ok unfolding Br by simp_all
  ultimately have "tree_ok st' (Some a) l" "tree_ok st' (Some a) m"
    using len by (blast intro: tree_ok_frame)+
  moreover have "st' ! a = \<lparr> count = w, parent = par', more_child = Some (addr m), less_child = Some (addr l) \<rparr>"
    using top ok unfolding Br by simp
  moreover have "256 \<le> a" "a < length st'" using ok len unfolding Br by simp_all
  ultimately show ?thesis unfolding Br by simp
qed

lemma merge_step_sim:
  assumes rel: "forest_rel ct f"
    and fs: "find_smallest ct ix = (Some s, Some n)"
    and sn: "s \<noteq> n" "s < 256" "n < 256"
    and ts: "f ! s = Some ts" and tn: "f ! n = Some tn"
    and add: "long_add (weight ts) (weight tn) = weight ts + weight tn"
  shows "\<exists>ct'. merge_step (ct, ix) = Inr (ct', Some s, Some n) \<and>
           forest_rel ct' (a_merge f s n (length (store ct))) \<and>
           length (store ct') = Suc (length (store ct)) \<and>
           root ct' = Some (length (store ct)) \<and> codes ct' = codes ct \<and>
           (\<forall>a<length (store ct). count (store ct' ! a) = count (store ct ! a))"
proof -
  define st where "st = store ct"
  define new where "new = length st"
  define lo where "lo = (if s < n then s else n)"
  define hi where "hi = (if s < n then n else s)"
  define l where "l = (if weight ts \<noteq> weight tn \<or> s < n then ts else tn)"
  define m where "m = (if weight ts \<noteq> weight tn \<or> s < n then tn else ts)"
  define T where "T = Br new (weight ts + weight tn) l m"
  define nd where "nd = \<lparr> count = weight ts + weight tn, parent = None,
    more_child = Some (addr m), less_child = Some (addr l) \<rparr>"
  define st3 where "st3 = ((st @ [nd]) [addr ts := (st ! addr ts) \<lparr> parent := Some new \<rparr>])
     [addr tn := (st ! addr tn) \<lparr> parent := Some new \<rparr>]"
  define act where "act = (actives ct) [lo := Some new, hi := None]"
  define ct' where "ct' = ct \<lparr> store := st3, actives := act, root := Some new \<rparr>"
  have len: "length f = 256" and ge: "256 \<le> new" and acts: "actives ct = map (map_option addr) f"
    and trees: "\<And>i t. i < 256 \<Longrightarrow> f ! i = Some t \<Longrightarrow> tree_ok st None t \<and> wf_tree t"
    and disj: "\<And>i j t u. i < 256 \<Longrightarrow> j < 256 \<Longrightarrow> i \<noteq> j \<Longrightarrow> f ! i = Some t \<Longrightarrow> f ! j = Some u
          \<Longrightarrow> addrs t \<inter> addrs u = {}"
    and cover: "\<And>a. a < new \<Longrightarrow> \<exists>i<256. \<exists>t. f ! i = Some t \<and> a \<in> addrs t"
    using rel unfolding forest_rel_def st_def new_def by blast+
  have lohi: "lo \<noteq> hi" "lo < 256" "hi < 256" "{lo, hi} = {s, n}"
    using sn by (auto simp: lo_def hi_def)
  have lm: "(l = ts \<and> m = tn) \<or> (l = tn \<and> m = ts)" by (auto simp: l_def m_def)
  have am: "a_merge f s n new = f [lo := Some T, hi := None]"
    by (simp add: a_merge_def ts tn T_def l_def m_def lo_def hi_def Let_def)
  have as: "actives ct ! s = Some (addr ts)" and an: "actives ct ! n = Some (addr tn)"
    using sn len ts tn by (simp_all add: acts)
  have oks: "tree_ok st None ts" "wf_tree ts" and okn: "tree_ok st None tn" "wf_tree tn"
    using trees[OF sn(2) ts] trees[OF sn(3) tn] by simp_all
  have dsn: "addrs ts \<inter> addrs tn = {}" using disj[OF sn(2,3,1) ts tn] .
  have ps: "addr ts < new" and pn: "addr tn < new"
    using tree_ok_lt[OF oks(1) addr_in_addrs] tree_ok_lt[OF okn(1) addr_in_addrs]
    by (simp_all add: new_def)
  have pspn: "addr ts \<noteq> addr tn" using dsn addr_in_addrs[of ts] addr_in_addrs[of tn] by auto
  have cs: "count (st ! addr ts) = weight ts" and cn: "count (st ! addr tn) = weight tn"
    using tree_ok_top[OF oks(1)] tree_ok_top[OF okn(1)] by simp_all
  have step: "merge_step (ct, ix) = Inr (ct', Some s, Some n)"
  proof -
    have lo': "actives ct ! lo = Some (addr l)" and hi': "actives ct ! hi = Some (addr m)"
      if "weight ts = weight tn"
      using that as an by (auto simp: lo_def hi_def l_def m_def)
    have more: "(if count (store ct ! addr ts) \<noteq> count (store ct ! addr tn)
                 then actives ct ! n else actives ct ! hi) = Some (addr m)"
      using cs cn hi' an by (auto simp: st_def m_def)
    have less: "(if count (store ct ! addr ts) \<noteq> count (store ct ! addr tn)
                 then actives ct ! s else actives ct ! lo) = Some (addr l)"
      using cs cn lo' as by (auto simp: st_def l_def)
    have nth1: "(st @ [nd]) ! addr ts = st ! addr ts" using ps by (simp add: nth_append new_def)
    have nth2: "((st @ [nd]) [addr ts := (st ! addr ts) \<lparr> parent := Some new \<rparr>]) ! addr tn = st ! addr tn"
      using pn pspn by (simp add: nth_append new_def)
    have act': "(if s < n then (actives ct) [s := Some new, n := None]
                 else (actives ct) [n := Some new, s := None]) = act"
      by (simp add: act_def lo_def hi_def)
    show ?thesis
      unfolding merge_step_def
      using more less nth1 nth2 cs cn add act'
      by (simp add: fs as an Let_def st_def[symmetric] new_def[symmetric] lo_def[symmetric]
          hi_def[symmetric] ct'_def st3_def nd_def act_def)
  qed
  have l3: "length st3 = Suc new" by (simp add: st3_def new_def)
  have new3: "st3 ! new = nd" using ps pn by (simp add: st3_def new_def)
  have ps3: "st3 ! addr ts = (st ! addr ts) \<lparr> parent := Some new \<rparr>"
    using ps pspn by (simp add: st3_def new_def)
  have pn3: "st3 ! addr tn = (st ! addr tn) \<lparr> parent := Some new \<rparr>"
    using pn by (simp add: st3_def new_def)
  have old3: "st3 ! a = st ! a" if "a < new" "a \<noteq> addr ts" "a \<noteq> addr tn" for a
    using that by (simp add: st3_def new_def nth_append)
  have oks3: "tree_ok st3 (Some new) ts"
  proof (rule tree_ok_reparent[OF oks(1,2) _ ps3])
    show "length st \<le> length st3" by (simp add: l3 new_def)
    show "\<forall>a\<in>addrs ts. a \<noteq> addr ts \<longrightarrow> st3 ! a = st ! a"
      using dsn addr_in_addrs[of tn] tree_ok_lt[OF oks(1)] by (auto intro!: old3 simp: new_def)
  qed
  have okn3: "tree_ok st3 (Some new) tn"
  proof (rule tree_ok_reparent[OF okn(1,2) _ pn3])
    show "length st \<le> length st3" by (simp add: l3 new_def)
    show "\<forall>a\<in>addrs tn. a \<noteq> addr tn \<longrightarrow> st3 ! a = st ! a"
      using dsn addr_in_addrs[of ts] tree_ok_lt[OF okn(1)] by (auto intro!: old3 simp: new_def)
  qed
  have newts: "new \<notin> addrs ts" "new \<notin> addrs tn"
    using tree_ok_lt[OF oks(1), of new] tree_ok_lt[OF okn(1), of new] by (auto simp: new_def)
  have aT: "addrs T = insert new (addrs ts \<union> addrs tn)" using lm by (auto simp: T_def)
  have okT: "tree_ok st3 None T" "wf_tree T"
    using lm oks3 okn3 new3 l3 newts dsn oks(2) okn(2) ps ge
    by (auto simp: T_def nd_def new_def)
  have other: "tree_ok st3 None u \<and> wf_tree u \<and> addrs u \<inter> addrs T = {}"
    if "i < 256" "i \<noteq> s" "i \<noteq> n" "f ! i = Some u" for i u
  proof -
    have u: "tree_ok st None u" "wf_tree u" using trees[OF that(1,4)] by simp_all
    have d: "addrs u \<inter> addrs ts = {}" "addrs u \<inter> addrs tn = {}"
      using disj[OF that(1) sn(2) that(2) that(4) ts] disj[OF that(1) sn(3) that(3) that(4) tn]
      by simp_all
    have lt: "\<forall>a\<in>addrs u. a < new" using tree_ok_lt[OF u(1)] by (simp add: new_def)
    have "st3 ! a = st ! a" if "a \<in> addrs u" for a
    proof (rule old3)
      show "a < new" using lt that by simp
      show "a \<noteq> addr ts" using d(1) that addr_in_addrs[of ts] by auto
      show "a \<noteq> addr tn" using d(2) that addr_in_addrs[of tn] by auto
    qed
    then have "\<forall>a\<in>addrs u. st3 ! a = st ! a" by simp
    then have "tree_ok st3 None u"
      using l3 by (intro tree_ok_frame[OF u(1)]) (simp_all add: new_def)
    moreover have "addrs u \<inter> addrs T = {}" using d lt by (auto simp: aT)
    ultimately show ?thesis using u(2) by simp
  qed
  let ?f' = "f [lo := Some T, hi := None]"
  have nth': "?f' ! i = (if i = hi then None else if i = lo then Some T else f ! i)" if "i < 256" for i
    using that len lohi by (simp add: nth_list_update)
  have notsn: "i \<noteq> s \<and> i \<noteq> n" if "i \<noteq> lo" "i \<noteq> hi" for i
    using that lohi(4) by auto
  have rel': "forest_rel ct' ?f'"
    unfolding forest_rel_def
  proof (intro conjI allI impI)
    show "length ?f' = 256" using len by simp
    show "256 \<le> length (store ct')" using ge by (simp add: ct'_def l3)
    show "actives ct' = map (map_option addr) ?f'"
      by (simp add: ct'_def act_def acts map_update T_def)
  next
    fix i t assume i: "i < 256" and t: "?f' ! i = Some t"
    have ti: "(if i = hi then None else if i = lo then Some T else f ! i) = Some t"
      using t nth'[OF i] by simp
    have "tree_ok st3 None t \<and> wf_tree t"
    proof (cases "i = lo")
      case True
      then show ?thesis using ti okT lohi by (simp split: if_splits)
    next
      case False
      then have "i \<noteq> hi" "f ! i = Some t" using ti by (auto split: if_splits)
      then show ?thesis using other[OF i _ _ \<open>f ! i = Some t\<close>] notsn[OF False] by simp
    qed
    then show "tree_ok (store ct') None t" "wf_tree t" by (simp_all add: ct'_def)
  next
    fix i j t u
    assume i: "i < 256" and j: "j < 256" and A: "i \<noteq> j \<and> ?f' ! i = Some t \<and> ?f' ! j = Some u"
    have ti: "(if i = hi then None else if i = lo then Some T else f ! i) = Some t"
      and uj: "(if j = hi then None else if j = lo then Some T else f ! j) = Some u"
      using A nth'[OF i] nth'[OF j] by simp_all
    have ihi: "i \<noteq> hi" and jhi: "j \<noteq> hi" using ti uj by (auto split: if_splits)
    consider (ilo) "i = lo" "j \<noteq> lo" | (jlo) "j = lo" "i \<noteq> lo" | (none) "i \<noteq> lo" "j \<noteq> lo"
      using A by auto
    then show "addrs t \<inter> addrs u = {}"
    proof cases
      case ilo
      then have "t = T" "f ! j = Some u" using ti uj ihi jhi by (auto split: if_splits)
      then show ?thesis using other[OF j _ _ \<open>f ! j = Some u\<close>] notsn[OF ilo(2) jhi] by auto
    next
      case jlo
      then have "u = T" "f ! i = Some t" using ti uj ihi jhi by (auto split: if_splits)
      then show ?thesis using other[OF i _ _ \<open>f ! i = Some t\<close>] notsn[OF jlo(2) ihi] by auto
    next
      case none
      then have "f ! i = Some t" "f ! j = Some u" using ti uj ihi jhi by (auto split: if_splits)
      then show ?thesis using disj[OF i j _ \<open>f ! i = Some t\<close> \<open>f ! j = Some u\<close>] A by simp
    qed
  next
    fix a assume "a < length (store ct')"
    then have a: "a < Suc new" by (simp add: ct'_def l3)
    have flo: "?f' ! lo = Some T" using nth'[OF lohi(2)] lohi(1) by simp
    show "\<exists>i<256. \<exists>t. ?f' ! i = Some t \<and> a \<in> addrs t"
    proof (cases "a = new")
      case True
      then have "a \<in> addrs T" by (simp add: aT)
      then show ?thesis using lohi(2) flo by blast
    next
      case False
      then obtain i t where it: "i < 256" "f ! i = Some t" "a \<in> addrs t"
        using cover[of a] a by auto
      show ?thesis
      proof (cases "i = s \<or> i = n")
        case True
        then have "a \<in> addrs T" using it ts tn by (auto simp: aT)
        then show ?thesis using lohi(2) flo by blast
      next
        case False
        then have "i \<noteq> lo" "i \<noteq> hi" using lohi(4) by auto
        then have "?f' ! i = Some t" using nth'[OF it(1)] it(2) by simp
        then show ?thesis using it by blast
      qed
    qed
  qed
  have cnt: "count (store ct' ! a) = count (store ct ! a)" if "a < length (store ct)" for a
    using that ps pn by (simp add: ct'_def st3_def st_def[symmetric] new_def nth_list_update nth_append)
  show ?thesis
    using step rel' cnt by (intro exI[of _ ct']) (simp add: am[unfolded new_def st_def] ct'_def l3 new_def st_def)
qed

text \<open>
  C3. Let at least two slots be active, every active weight be below \<open>LONG_MAX\<close> and every
  active pointer be the address of a node. One pass of the loop of \<open>build_tree\<close> then
  allocates a node at the next free address whose children are the nodes of the two selected
  slots: with \<open>a\<close> the slot of its \<open>less\<close> child and \<open>b\<close> the slot of its \<open>more\<close>
  child, either the weight at \<open>a\<close> is strictly smaller than the weight at \<open>b\<close>, or the
  weights are equal and \<open>a < b\<close>; which of the two the scan returned as smallest plays no
  part.
\<close>

theorem merge_step_children:
  assumes "i \<noteq> j" "active ct i" "active ct j" "below_LONG_MAX ct" "actives_valid ct"
  shows "\<exists>ct' s n a b. merge_step (ct, ix) = Inr (ct', Some s, Some n) \<and>
           find_smallest ct ix = (Some s, Some n) \<and>
           active ct a \<and> active ct b \<and> {a, b} = {s, n} \<and> a \<noteq> b \<and>
           less_child (store ct' ! length (store ct)) = actives ct ! a \<and>
           more_child (store ct' ! length (store ct)) = actives ct ! b \<and>
           (slot_weight ct a < slot_weight ct b \<or>
            (slot_weight ct a = slot_weight ct b \<and> a < b))"
proof -
  from find_smallest_char[OF assms(1-3), of ix] assms(4)
  obtain s n where sn: "find_smallest ct ix = (Some s, Some n)" "s \<noteq> n"
      "first_min ct {i. active ct i} s" "first_min ct ({i. active ct i} - {s}) n"
    by (auto simp: below_LONG_MAX_def)
  have act: "active ct s" "active ct n" and le: "slot_weight ct s \<le> slot_weight ct n"
    using sn by (auto simp: first_min_def)
  obtain ps pn where p: "actives ct ! s = Some ps" "actives ct ! n = Some pn"
    using act by (auto simp: active_def)
  have lt: "ps < length (store ct)" "pn < length (store ct)"
    using assms(5) act p by (auto simp: actives_valid_def)
  have w: "count (store ct ! ps) = slot_weight ct s" "count (store ct ! pn) = slot_weight ct n"
    by (simp_all add: slot_weight_def p)
  define a where "a = (if slot_weight ct s \<noteq> slot_weight ct n \<or> s < n then s else n)"
  define b where "b = (if slot_weight ct s \<noteq> slot_weight ct n \<or> s < n then n else s)"
  obtain ct' where ct': "merge_step (ct, ix) = Inr (ct', Some s, Some n)"
      "less_child (store ct' ! length (store ct)) = actives ct ! a"
      "more_child (store ct' ! length (store ct)) = actives ct ! b"
    using lt by (auto simp: merge_step_def sn(1) p Let_def w a_def b_def)
  have "{a, b} = {s, n}" "a \<noteq> b" "active ct a" "active ct b"
    "slot_weight ct a < slot_weight ct b \<or> (slot_weight ct a = slot_weight ct b \<and> a < b)"
    using sn(2) act le by (auto simp: a_def b_def)
  with ct' sn(1) show ?thesis by blast
qed

lemma example_scan:
  "find_smallest (table ((replicate 256 5) [7 := 1, 3 := 1])) ix = (Some 3, Some 7)"
proof -
  let ?ct = "table ((replicate 256 (5::int)) [7 := 1, 3 := 1])"
  have w: "slot_weight ?ct i = (if i = 3 \<or> i = 7 then 1 else 5)" if "i < 256" for i
    using that by (simp add: slot_weight_table nth_list_update)
  have "active ?ct 0" "active ?ct 1" "(0::nat) \<noteq> 1" by (simp_all add: active_table)
  moreover have "\<forall>i. active ?ct i \<longrightarrow> slot_weight ?ct i < LONG_MAX"
    by (auto simp: active_table w LONG_MAX_def)
  ultimately obtain s n where sn: "find_smallest ?ct ix = (Some s, Some n)" "s \<noteq> n"
      "first_min ?ct {i. active ?ct i} s" "first_min ?ct ({i. active ?ct i} - {s}) n"
    using find_smallest_char[of 0 1 ?ct ix] by blast
  have s256: "s < 256" and n256: "n < 256" using sn(3,4) by (simp_all add: first_min_def active_table)
  have 1: "\<And>i. i < 256 \<Longrightarrow> slot_weight ?ct s \<le> slot_weight ?ct i \<and>
      (slot_weight ?ct i = slot_weight ?ct s \<longrightarrow> s \<le> i)"
    using sn(3) by (simp add: first_min_def active_table)
  have 2: "\<And>i. i < 256 \<Longrightarrow> i \<noteq> s \<Longrightarrow> slot_weight ?ct n \<le> slot_weight ?ct i"
    using sn(4) by (simp add: first_min_def active_table)
  have s37: "s = 3 \<or> s = 7" using 1[of 3] s256 by (simp add: w split: if_splits)
  have "s \<le> 3" using 1[of 3] s37 s256 by (simp add: w)
  then have s: "s = 3" using s37 by simp
  have "n = 3 \<or> n = 7" using 2[of 7] n256 s by (simp add: w split: if_splits)
  then have "n = 7" using sn(2) s by simp
  then show ?thesis using sn(1) s by simp
qed

lemma example_conditions:
  "active (table ((replicate 256 5) [7 := 1, 3 := 1])) 0"
  "active (table ((replicate 256 5) [7 := 1, 3 := 1])) 1"
  "below_LONG_MAX (table ((replicate 256 5) [7 := 1, 3 := 1]))"
  "actives_valid (table ((replicate 256 5) [7 := 1, 3 := 1]))"
  by (auto simp: active_table below_LONG_MAX_def actives_valid_def table_simps
      slot_weight_table nth_list_update LONG_MAX_def)

theorem merge_step_children_witness:
  "active (table ((replicate 256 5) [7 := 1, 3 := 1])) 0 \<and>
   active (table ((replicate 256 5) [7 := 1, 3 := 1])) 1 \<and>
   below_LONG_MAX (table ((replicate 256 5) [7 := 1, 3 := 1])) \<and>
   actives_valid (table ((replicate 256 5) [7 := 1, 3 := 1])) \<and>
   (\<exists>ct'. merge_step (table ((replicate 256 5) [7 := 1, 3 := 1]), None, None) =
            Inr (ct', Some 3, Some 7) \<and>
      less_child (store ct' ! 256) = Some 3 \<and> more_child (store ct' ! 256) = Some 7)"
proof -
  let ?ct = "table ((replicate 256 (5::int)) [7 := 1, 3 := 1])"
  have w: "slot_weight ?ct i = (if i = 3 \<or> i = 7 then 1 else 5)" if "i < 256" for i
    using that by (simp add: slot_weight_table nth_list_update)
  from merge_step_children[OF _ example_conditions, of "(None, None)"]
  obtain ct' s n a b where *: "merge_step (?ct, None, None) = Inr (ct', Some s, Some n)"
      "find_smallest ?ct (None, None) = (Some s, Some n)" "{a, b} = {s, n}" "a \<noteq> b"
      "less_child (store ct' ! length (store ?ct)) = actives ?ct ! a"
      "more_child (store ct' ! length (store ?ct)) = actives ?ct ! b"
      "slot_weight ?ct a < slot_weight ?ct b \<or> (slot_weight ?ct a = slot_weight ?ct b \<and> a < b)"
    by auto
  have sn: "s = 3" "n = 7" using *(2) example_scan[of "(None, None)"] by simp_all
  have "a = 3 \<and> b = 7" using *(3,4,7) sn by (auto simp: w doubleton_eq_iff)
  then show ?thesis using * sn example_conditions by (auto simp: table_simps)
qed

lemma long_add_id: "- (2 ^ 63) \<le> a + b \<Longrightarrow> a + b < 2 ^ 63 \<Longrightarrow> long_add a b = a + b"
  by (simp add: long_add_def)

lemma forest_rel_active: "forest_rel ct f \<Longrightarrow> active ct i \<longleftrightarrow> i \<in> occupied f"
  by (auto simp: forest_rel_def active_def occupied_def)

lemma forest_rel_weight:
  assumes "forest_rel ct f" "i \<in> occupied f"
  shows "slot_weight ct i = wt (f ! i)"
proof -
  obtain t where t: "i < 256" "f ! i = Some t" using assms(2) by (auto simp: occupied_def)
  then have "tree_ok (store ct) None t" "actives ct ! i = Some (addr t)"
    using assms(1) by (auto simp: forest_rel_def)
  then show ?thesis using t tree_ok_top[of "store ct" None t] by (simp add: slot_weight_def)
qed

lemma finite_occupied: "finite (occupied f)"
  by (simp add: occupied_def)

lemma sum_two_le:
  assumes "s \<noteq> n" "s < (256::nat)" "n < 256" "\<forall>i<256. 0 \<le> (g i :: int)"
  shows "g s + g n \<le> (\<Sum>i<256. g i)"
proof -
  have "sum g {s, n} \<le> sum g {..<256}"
    using assms by (intro sum_mono2) auto
  then show ?thesis using assms(1) by simp
qed

lemma sum_one_le:
  assumes "s < (256::nat)" "\<forall>i<256. 0 \<le> (g i :: int)"
  shows "g s \<le> (\<Sum>i<256. g i)"
  using assms by (intro member_le_sum) auto

lemma sum_merge:
  assumes "lo \<noteq> hi" "lo < (256::nat)" "hi < 256"
    and "g' lo = g lo + g hi" "g' hi = 0" "\<forall>i. i \<noteq> lo \<and> i \<noteq> hi \<longrightarrow> g' i = g i"
  shows "(\<Sum>i<256. g' i) = (\<Sum>i<256. (g i :: int))"
proof -
  have fin: "finite {..<256::nat}" by simp
  have 1: "sum g' {..<256} = g' lo + (g' hi + sum g' ({..<256} - {lo} - {hi}))"
    using assms(1-3) by (simp add: sum.remove[OF fin, of lo] sum.remove[of "{..<256} - {lo}" hi])
  have 2: "sum g {..<256} = g lo + (g hi + sum g ({..<256} - {lo} - {hi}))"
    using assms(1-3) by (simp add: sum.remove[OF fin, of lo] sum.remove[of "{..<256} - {lo}" hi])
  have "sum g' ({..<256} - {lo} - {hi}) = sum g ({..<256} - {lo} - {hi})"
    using assms(6) by (intro sum.cong) auto
  then show ?thesis using 1 2 assms(4,5) by simp
qed

lemma a_merge_eq:
  assumes "s \<noteq> n" "f ! s = Some ts" "f ! n = Some tn"
  shows "\<exists>t. a_merge f s n new = f [min s n := Some t, max s n := None] \<and> addr t = new \<and>
           weight t = weight ts + weight tn \<and> addrs t = insert new (addrs ts \<union> addrs tn)"
  using assms by (auto simp: a_merge_def Let_def min_def max_def)

lemma two_elements:
  assumes "2 \<le> card A"
  shows "\<exists>i j. i \<in> A \<and> j \<in> A \<and> i \<noteq> j"
proof -
  have "A \<noteq> {}" using assms by auto
  then obtain i where i: "i \<in> A" by auto
  have "finite A" using assms by (cases "finite A") auto
  then have "card (A - {i}) = card A - 1" using i by simp
  then have "0 < card (A - {i})" using assms by simp
  then have "A - {i} \<noteq> {}" by (auto simp: card_gt_0_iff)
  then show ?thesis using i by auto
qed

lemma build_step:
  assumes inv: "build_inv T ct f" and T: "T < LONG_MAX" and two: "2 \<le> card (occupied f)"
  shows "\<exists>ct' f' s n. merge_step (ct, ix) = Inr (ct', Some s, Some n) \<and> build_inv T ct' f' \<and>
           f' = a_merge f s n (length (store ct)) \<and> find_smallest ct ix = (Some s, Some n) \<and>
           s \<in> occupied f \<and> n \<in> occupied f \<and> s \<noteq> n \<and>
           card (occupied f') = card (occupied f) - 1 \<and>
           length (store ct') = Suc (length (store ct)) \<and>
           root ct' = Some (length (store ct)) \<and> codes ct' = codes ct \<and>
           (\<forall>a<length (store ct). count (store ct' ! a) = count (store ct ! a)) \<and>
           (\<exists>i<256. \<exists>t. f' ! i = Some t \<and> addr t = length (store ct))"
proof -
  have rel: "forest_rel ct f" and nonneg: "\<forall>i<256. 0 \<le> wt (f ! i)"
    and total: "(\<Sum>i<256. wt (f ! i)) = T"
    using inv by (simp_all add: build_inv_def)
  have len: "length f = 256" using rel by (simp add: forest_rel_def)
  obtain i j where ij: "i \<in> occupied f" "j \<in> occupied f" "i \<noteq> j"
    using two_elements[OF two] by blast
  have below: "slot_weight ct k < LONG_MAX" if "active ct k" for k
  proof -
    have k: "k \<in> occupied f" using that rel by (simp add: forest_rel_active)
    then have "k < 256" by (simp add: occupied_def)
    then have "wt (f ! k) \<le> T" using sum_one_le[of k "\<lambda>i. wt (f ! i)"] nonneg total by simp
    then show ?thesis using T k rel by (simp add: forest_rel_weight)
  qed
  obtain s n where sn: "find_smallest ct ix = (Some s, Some n)" "s \<noteq> n"
      "first_min ct {i. active ct i} s" "first_min ct ({i. active ct i} - {s}) n"
    using find_smallest_char[of i j ct ix] ij below rel by (auto simp: forest_rel_active)
  have occ: "s \<in> occupied f" "n \<in> occupied f"
    using sn(3,4) rel by (auto simp: first_min_def forest_rel_active)
  then obtain ts tn where t: "s < 256" "n < 256" "f ! s = Some ts" "f ! n = Some tn"
    by (auto simp: occupied_def)
  have ge0: "0 \<le> weight ts" "0 \<le> weight tn" using nonneg t by (metis wt.simps(2))+
  have "weight ts + weight tn \<le> T"
    using sum_two_le[OF sn(2) t(1,2), of "\<lambda>i. wt (f ! i)"] nonneg total t(3,4) by simp
  then have add: "long_add (weight ts) (weight tn) = weight ts + weight tn"
    using ge0 T by (intro long_add_id) (simp_all add: LONG_MAX_def)
  let ?new = "length (store ct)"
  from merge_step_sim[OF rel sn(1,2) t add]
  obtain ct' where ct': "merge_step (ct, ix) = Inr (ct', Some s, Some n)"
      "forest_rel ct' (a_merge f s n ?new)" "length (store ct') = Suc ?new"
      "root ct' = Some ?new" "codes ct' = codes ct"
      "\<forall>a<?new. count (store ct' ! a) = count (store ct ! a)"
    by blast
  obtain u where u: "a_merge f s n ?new = f [min s n := Some u, max s n := None]"
      "addr u = ?new" "weight u = weight ts + weight tn"
    using a_merge_eq[OF sn(2) t(3,4), of ?new] by blast
  define f' where "f' = f [min s n := Some u, max s n := None]"
  have mm: "min s n \<noteq> max s n" "min s n < 256" "max s n < 256" using sn(2) t(1,2) by auto
  have nth': "f' ! k = (if k = max s n then None else if k = min s n then Some u else f ! k)"
    if "k < 256" for k
    using that len mm by (simp add: f'_def nth_list_update)
  have wsum: "wt (f ! min s n) + wt (f ! max s n) = weight ts + weight tn"
    using t(3,4) by (auto simp: min_def max_def)
  have fmin: "f ! min s n \<noteq> None" using t(3,4) by (auto simp: min_def)
  have "(\<Sum>k<256. wt (f' ! k)) = (\<Sum>k<256. wt (f ! k))"
  proof (rule sum_merge[OF mm])
    show "wt (f' ! min s n) = wt (f ! min s n) + wt (f ! max s n)"
      using nth'[OF mm(2)] mm(1) u(3) wsum by simp
    show "wt (f' ! max s n) = 0" using nth'[OF mm(3)] by simp
    show "\<forall>k. k \<noteq> min s n \<and> k \<noteq> max s n \<longrightarrow> wt (f' ! k) = wt (f ! k)"
      by (simp add: f'_def)
  qed
  moreover have "\<forall>k<256. 0 \<le> wt (f' ! k)" using nonneg ge0 u(3) by (auto simp: nth')
  ultimately have inv': "build_inv T ct' f'"
    using ct'(2) total by (simp add: build_inv_def u(1) f'_def)
  have "k \<in> occupied f' \<longleftrightarrow> k \<in> occupied f - {max s n}" for k
  proof (cases "k < 256")
    case True
    show ?thesis using fmin by (simp add: occupied_def nth'[OF True] True)
  next
    case False
    then show ?thesis by (simp add: occupied_def)
  qed
  then have "occupied f' = occupied f - {max s n}" by blast
  moreover have "max s n \<in> occupied f" using occ by (auto simp: max_def)
  ultimately have card: "card (occupied f') = card (occupied f) - 1"
    by (simp add: finite_occupied)
  have "f' ! min s n = Some u" using nth'[OF mm(2)] mm(1) by simp
  then have "\<exists>i<256. \<exists>t. f' ! i = Some t \<and> addr t = ?new" using mm(2) u(2) by blast
  then show ?thesis using ct' inv' card sn(1,2) occ u(1)
    by (intro exI[of _ ct'] exI[of _ f'] exI[of _ s] exI[of _ n]) (simp add: f'_def)
qed

lemma merges_first: "merge_rel f f' \<Longrightarrow> merges k f' g \<Longrightarrow> merges (Suc k) f g"
proof (induction k arbitrary: g)
  case 0
  then show ?case by simp
next
  case (Suc k)
  then show ?case by (metis merges.simps(2))
qed

lemma first_min_fmin:
  assumes "forest_rel ct f" "A \<subseteq> occupied f" "first_min ct A s"
  shows "fmin f A s"
proof -
  have w: "slot_weight ct i = wt (f ! i)" if "i \<in> A" for i
    using forest_rel_weight[OF assms(1)] assms(2) that by auto
  show ?thesis
    unfolding fmin_def before_def
  proof (intro conjI ballI impI)
    show "s \<in> A" using assms(3) by (simp add: first_min_def)
    fix i assume i: "i \<in> A" "i \<noteq> s"
    have "slot_weight ct s \<le> slot_weight ct i \<and> (slot_weight ct i = slot_weight ct s \<longrightarrow> s \<le> i)"
      using assms(3) i(1) by (simp add: first_min_def)
    then show "wt (f ! s) < wt (f ! i) \<or> wt (f ! s) = wt (f ! i) \<and> s < i"
      using w[OF i(1)] w[of s] assms(3) i(2) by (auto simp: first_min_def)
  qed
qed

lemma build_step_rel:
  assumes inv: "build_inv T ct f" and T: "T < LONG_MAX" and two: "2 \<le> card (occupied f)"
    and new: "length (store ct) + card (occupied f) = 512"
  shows "\<exists>ct' f' ix'. merge_step (ct, ix) = Inr (ct', ix') \<and> build_inv T ct' f' \<and>
           merge_rel f f' \<and> card (occupied f') = card (occupied f) - 1 \<and>
           length (store ct') = Suc (length (store ct)) \<and>
           root ct' = Some (length (store ct)) \<and> codes ct' = codes ct \<and>
           (\<forall>a<length (store ct). count (store ct' ! a) = count (store ct ! a)) \<and>
           (\<exists>i<256. \<exists>t. f' ! i = Some t \<and> addr t = length (store ct))"
proof -
  from build_step[OF inv T two, of ix]
  obtain ct' f' s n where *: "merge_step (ct, ix) = Inr (ct', Some s, Some n)" "build_inv T ct' f'"
      "f' = a_merge f s n (length (store ct))" "find_smallest ct ix = (Some s, Some n)"
      "s \<in> occupied f" "n \<in> occupied f" "s \<noteq> n"
      "card (occupied f') = card (occupied f) - 1" "length (store ct') = Suc (length (store ct))"
      "root ct' = Some (length (store ct))" "codes ct' = codes ct"
      "\<forall>a<length (store ct). count (store ct' ! a) = count (store ct ! a)"
      "\<exists>i<256. \<exists>t. f' ! i = Some t \<and> addr t = length (store ct)"
    by blast
  have rel: "forest_rel ct f" and nonneg: "\<forall>i<256. 0 \<le> wt (f ! i)"
    and total: "(\<Sum>i<256. wt (f ! i)) = T"
    using inv by (simp_all add: build_inv_def)
  have below: "slot_weight ct k < LONG_MAX" if "active ct k" for k
  proof -
    have k: "k \<in> occupied f" using that rel by (simp add: forest_rel_active)
    then have "k < 256" by (simp add: occupied_def)
    then have "wt (f ! k) \<le> T" using sum_one_le[of k "\<lambda>i. wt (f ! i)"] nonneg total by simp
    then show ?thesis using T k rel by (simp add: forest_rel_weight)
  qed
  have act: "{i. active ct i} = occupied f" using rel by (auto simp: forest_rel_active)
  have "first_min ct (occupied f) s \<and> first_min ct (occupied f - {s}) n"
    using find_smallest_char[of s n ct ix] *(4-7) below act by auto
  then have "fmin f (occupied f) s" "fmin f (occupied f - {s}) n"
    using first_min_fmin[OF rel] by auto
  moreover have "length (store ct) = 512 - card (occupied f)" using new by simp
  ultimately have "merge_rel f f'" using *(3) by (auto simp: merge_rel_def)
  then show ?thesis using * by blast
qed

lemma build_loop_rel:
  assumes "build_inv T ct f" "T < LONG_MAX" "card (occupied f) = k" "1 \<le> k"
    and "length (store ct) + card (occupied f) = 512"
  shows "\<exists>ct' f'. build_tree_loop k (ct, ix) = Inr ct' \<and> build_inv T ct' f' \<and>
           merges (k - 1) f f' \<and>
           card (occupied f') = 1 \<and> length (store ct') = length (store ct) + (k - 1) \<and>
           codes ct' = codes ct \<and>
           (\<forall>a<length (store ct). count (store ct' ! a) = count (store ct ! a)) \<and>
           (1 < k \<longrightarrow> root ct' = Some (length (store ct') - 1) \<and>
              (\<exists>i<256. \<exists>t. f' ! i = Some t \<and> addr t = length (store ct') - 1))"
  using assms
proof (induction k arbitrary: ct f ix)
  case 0
  then show ?case by simp
next
  case (Suc k)
  show ?case
  proof (cases "k = 0")
    case True
    then show ?thesis using Suc.prems by (auto simp: build_tree_loop.simps)
  next
    case False
    then have two: "2 \<le> card (occupied f)" using Suc.prems(3) by simp
    from build_step_rel[OF Suc.prems(1,2) two Suc.prems(5), of ix]
    obtain ct1 f1 ix1 where 1: "merge_step (ct, ix) = Inr (ct1, ix1)"
        "build_inv T ct1 f1" "merge_rel f f1" "card (occupied f1) = card (occupied f) - 1"
        "length (store ct1) = Suc (length (store ct))" "root ct1 = Some (length (store ct))"
        "codes ct1 = codes ct" "\<forall>a<length (store ct). count (store ct1 ! a) = count (store ct ! a)"
        "\<exists>i<256. \<exists>t. f1 ! i = Some t \<and> addr t = length (store ct)"
      by blast
    have k: "card (occupied f1) = k" "1 \<le> k" using 1(4) Suc.prems(3) False by simp_all
    have new: "length (store ct1) + card (occupied f1) = 512"
      using 1(4,5) Suc.prems(3,5) by simp
    from Suc.IH[OF 1(2) Suc.prems(2) k new, of ix1]
    obtain ct' f' where 2: "build_tree_loop k (ct1, ix1) = Inr ct'"
        "build_inv T ct' f'" "merges (k - 1) f1 f'" "card (occupied f') = 1"
        "length (store ct') = length (store ct1) + (k - 1)" "codes ct' = codes ct1"
        "\<forall>a<length (store ct1). count (store ct' ! a) = count (store ct1 ! a)"
        "1 < k \<longrightarrow> root ct' = Some (length (store ct') - 1) \<and>
              (\<exists>i<256. \<exists>t. f' ! i = Some t \<and> addr t = length (store ct') - 1)"
      by blast
    have loop: "build_tree_loop (Suc k) (ct, ix) = Inr ct'"
      using False 1(1) 2(1) by (subst build_tree_loop.simps) simp
    have ms: "merges (Suc k - 1) f f'"
      using merges_first[OF 1(3) 2(3)] k(2) by simp
    show ?thesis
    proof (cases "1 < k")
      case True
      then show ?thesis using loop ms 1 2 False by (intro exI[of _ ct'] exI[of _ f']) auto
    next
      case False
      then have k1: "k = 1" using k(2) by simp
      then have "ct' = ct1" "f' = f1" using 2(1,3) by (simp_all add: build_tree_loop.simps)
      then show ?thesis using loop ms 1 2(2) k k1 by (intro exI[of _ ct1] exI[of _ f1]) auto
    qed
  qed
qed

lemma puff_analysis_prefix:
  assumes "k \<le> 256" "length cs = 256"
  shows "fold (\<lambda>i ct. set_count ct i (cs ! i)) [0..<k] CodeTree_initialize =
         CodeTree_initialize \<lparr> store := map leaf (take k cs) @ replicate (256 - k) (leaf 0) \<rparr>"
  using assms(1)
proof (induction k)
  case 0
  show ?case by (simp add: CodeTree_initialize_def leaf_def)
next
  case (Suc k)
  have "(map leaf (take k cs) @ replicate (256 - k) (leaf 0)) [k := leaf (cs ! k)] =
        map leaf (take (Suc k) cs) @ replicate (256 - Suc k) (leaf 0)"
  proof -
    have "replicate (256 - k) (leaf 0) = leaf 0 # replicate (256 - Suc k) (leaf 0)"
      using Suc.prems by (metis Suc_diff_Suc Suc_le_lessD replicate_Suc)
    then show ?thesis using Suc.prems assms(2)
      by (simp add: list_update_append take_Suc_conv_app_nth)
  qed
  moreover have "(map leaf (take k cs) @ replicate (256 - k) (leaf 0)) ! k = leaf 0"
    using Suc.prems assms(2) by (simp add: nth_append)
  moreover have "leaf 0 \<lparr> count := cs ! k \<rparr> = leaf (cs ! k)" by (simp add: leaf_def)
  ultimately show ?case using Suc
    by (simp add: set_count_def)
qed

lemma puff_analysis_table:
  "length cs = 256 \<Longrightarrow> puff_analysis CodeTree_initialize cs = table cs"
  using puff_analysis_prefix[of 256 cs] by (simp add: puff_analysis_def table_def)

lemma forest0_nth: "i < 256 \<Longrightarrow> forest0 cs ! i = Some (Leaf i (cs ! i))"
  by (simp add: forest0_def)

lemma occupied_forest0: "occupied (forest0 cs) = {..<256}"
  by (auto simp: occupied_def forest0_nth)

lemma build_inv_init:
  assumes "valid_counts cs"
  shows "build_inv (sum_list cs) (table cs) (forest0 cs)"
proof -
  have len: "length cs = 256" and nonneg: "\<forall>c\<in>set cs. 0 \<le> c"
    using assms by (simp_all add: valid_counts_def)
  have "actives (table cs) = map (map_option addr) (forest0 cs)"
    by (simp add: table_simps forest0_def)
  then have "forest_rel (table cs) (forest0 cs)"
    unfolding forest_rel_def using len
    by (auto simp: table_simps forest0_nth leaf_def forest0_def)
  moreover have "\<forall>i<256. 0 \<le> wt (forest0 cs ! i)"
    using nonneg len by (simp add: forest0_nth)
  moreover have "(\<Sum>i<256. wt (forest0 cs ! i)) = sum_list cs"
  proof -
    have "(\<Sum>i<256. wt (forest0 cs ! i)) = (\<Sum>i<256. cs ! i)"
      by (intro sum.cong) (simp_all add: forest0_nth)
    then show ?thesis using len by (simp add: sum_list_sum_nth atLeast0LessThan)
  qed
  ultimately show ?thesis by (simp add: build_inv_def)
qed

lemma forest_rel_cover:
  "forest_rel ct f \<Longrightarrow> a < length (store ct) \<Longrightarrow> \<exists>i<256. \<exists>t. f ! i = Some t \<and> a \<in> addrs t"
  by (simp add: forest_rel_def)

lemma build_tree_table:
  assumes "valid_counts cs"
  shows "\<exists>ct t. build_tree (table cs) = Inr ct \<and> tree_ok (store ct) None t \<and> wf_tree t \<and>
           addrs t = {..<511} \<and> length (store ct) = 511 \<and> root ct = Some 510 \<and> addr t = 510 \<and>
           weight t = sum_list cs \<and> codes ct = replicate 256 [] \<and>
           (\<forall>i<256. count (store ct ! i) = cs ! i) \<and>
           (\<exists>f z. merges 255 (forest0 cs) f \<and> occupied f = {z} \<and> f ! z = Some t)"
proof -
  have T: "sum_list cs < LONG_MAX" and len: "length cs = 256"
    using assms by (simp_all add: valid_counts_def)
  have "\<exists>ct f. build_tree (table cs) = Inr ct \<and> build_inv (sum_list cs) ct f \<and>
      merges 255 (forest0 cs) f \<and> card (occupied f) = 1 \<and> length (store ct) = 511 \<and> codes ct = replicate 256 [] \<and>
      (\<forall>a<256. count (store ct ! a) = cs ! a) \<and> root ct = Some 510 \<and>
      (\<exists>i<256. \<exists>t. f ! i = Some t \<and> addr t = 510)"
    using build_loop_rel[OF build_inv_init[OF assms] T, of 256 "(None, None)"] len
    by (simp add: occupied_forest0 build_tree_def table_simps leaf_def) fastforce
  then obtain ct f where *: "build_tree (table cs) = Inr ct" "build_inv (sum_list cs) ct f"
      "card (occupied f) = 1" "length (store ct) = 511" "codes ct = replicate 256 []"
      "\<forall>a<256. count (store ct ! a) = cs ! a" "root ct = Some 510"
      "\<exists>i<256. \<exists>t. f ! i = Some t \<and> addr t = 510" and ms: "merges 255 (forest0 cs) f"
    by blast
  obtain z where z: "occupied f = {z}" using *(3) by (auto simp: card_1_singleton_iff)
  then obtain t where t: "z < 256" "f ! z = Some t" by (auto simp: occupied_def)
  have only: "i = z \<and> u = t" if "i < 256" "f ! i = Some u" for i u
  proof -
    have "i \<in> occupied f" using that by (simp add: occupied_def)
    then show ?thesis using z t that by simp
  qed
  have rel: "forest_rel ct f" and total: "(\<Sum>i<256. wt (f ! i)) = sum_list cs"
    using *(2) by (simp_all add: build_inv_def)
  have ok: "tree_ok (store ct) None t" "wf_tree t" using rel t by (auto simp: forest_rel_def)
  have "a \<in> addrs t" if a: "a < 511" for a
  proof -
    obtain i u where "i < 256" "f ! i = Some u" "a \<in> addrs u"
      using forest_rel_cover[OF rel, of a] a *(4) by auto
    then show ?thesis using only by blast
  qed
  then have addrs: "addrs t = {..<511}" using tree_ok_lt[OF ok(1)] *(4) by auto
  have top: "addr t = 510" using *(8) only by blast
  have "(\<Sum>i<256. wt (f ! i)) = wt (f ! z) + sum (\<lambda>i. wt (f ! i)) ({..<256} - {z})"
    using t(1) by (simp add: sum.remove[of _ z])
  moreover have "sum (\<lambda>i. wt (f ! i)) ({..<256} - {z}) = 0"
  proof (rule sum.neutral, rule ballI)
    fix i assume "i \<in> {..<256} - {z}"
    then have "i \<notin> occupied f" "i < 256" using z by auto
    then have "f ! i = None" by (simp add: occupied_def)
    then show "wt (f ! i) = 0" by simp
  qed
  ultimately have "weight t = sum_list cs" using total t(2) by simp
  moreover have "\<exists>f z. merges 255 (forest0 cs) f \<and> occupied f = {z} \<and> f ! z = Some t"
    using ms z t(2) by blast
  ultimately show ?thesis using * ok addrs top by blast
qed

lemma finite_addrs: "finite (addrs t)"
  by (induction t) auto

lemma leaf_addrs_subset: "leaf_addrs t \<subseteq> addrs t"
  by (induction t) auto

lemma tree_ok_leaf_addrs: "tree_ok st par t \<Longrightarrow> leaf_addrs t = {a \<in> addrs t. a < 256}"
  by (induction t arbitrary: par) auto

lemma leaf_internal: "leaf_nodes t = Suc (internal_nodes t)"
  by (induction t) auto

lemma card_addrs: "wf_tree t \<Longrightarrow> card (addrs t) = leaf_nodes t + internal_nodes t"
proof (induction t)
  case (Leaf i w)
  show ?case by simp
next
  case (Br a w l m)
  then have "card (addrs l \<union> addrs m) = card (addrs l) + card (addrs m)"
    by (intro card_Un_disjoint) (simp_all add: finite_addrs)
  moreover have "a \<notin> addrs l \<union> addrs m" using Br.prems by simp
  ultimately show ?case using Br by (simp add: finite_addrs)
qed

lemma tree_ok_children:
  assumes "tree_ok st par t" "wf_tree t" "a \<in> addrs t"
  shows "(a < 256 \<longrightarrow> more_child (st ! a) = None \<and> less_child (st ! a) = None) \<and>
         (256 \<le> a \<longrightarrow> (\<exists>l m. less_child (st ! a) = Some l \<and> more_child (st ! a) = Some m \<and>
                               l \<noteq> m \<and> l \<in> addrs t \<and> m \<in> addrs t))"
  using assms
proof (induction t arbitrary: par)
  case (Leaf i w)
  then show ?case by simp
next
  case (Br b w l m)
  have ne: "addr l \<noteq> addr m" using Br.prems(2) addr_in_addrs[of l] addr_in_addrs[of m] by auto
  consider "a = b" | "a \<in> addrs l" | "a \<in> addrs m" using Br.prems(3) by auto
  then show ?case
  proof cases
    case 1
    then show ?thesis using Br.prems(1) ne addr_in_addrs[of l] addr_in_addrs[of m] by simp
  next
    case 2
    then show ?thesis using Br.IH(1)[of "Some b"] Br.prems(1,2) by auto
  next
    case 3
    then show ?thesis using Br.IH(2)[of "Some b"] Br.prems(1,2) by auto
  qed
qed

lemma walk_up_top: "tree_ok st None t \<Longrightarrow> walk_up st (addr t) code = Some code"
  using tree_ok_top[of st None t] by (subst walk_up.simps) simp

lemma walk_up_path:
  assumes "tree_ok st par t" "wf_tree t" "a \<in> addrs t"
  shows "walk_up st a code = walk_up st (addr t) (code @ rev (path t a))"
  using assms
proof (induction t arbitrary: par code)
  case (Leaf i w)
  then show ?case by simp
next
  case (Br b w l m)
  have ne: "addr l \<noteq> addr m" using Br.prems(2) addr_in_addrs[of l] addr_in_addrs[of m] by auto
  have okl: "tree_ok st (Some b) l" and okm: "tree_ok st (Some b) m"
    and node: "more_child (st ! b) = Some (addr m)" "less_child (st ! b) = Some (addr l)"
    using Br.prems(1) by simp_all
  have stepl: "walk_up st (addr l) c = walk_up st b (c @ ''0'')" for c
    using tree_ok_top[OF okl] node ne by (subst walk_up.simps) simp
  have stepm: "walk_up st (addr m) c = walk_up st b (c @ ''1'')" for c
    using tree_ok_top[OF okm] node ne by (subst walk_up.simps) simp
  consider "a = b" | "a \<noteq> b" "a \<in> addrs l" | "a \<noteq> b" "a \<notin> addrs l" "a \<in> addrs m"
    using Br.prems(3) by auto
  then show ?case
  proof cases
    case 1
    then show ?thesis by simp
  next
    case 2
    then show ?thesis using Br.IH(1)[OF okl, of code] Br.prems(2) by (simp add: stepl)
  next
    case 3
    then show ?thesis using Br.IH(2)[OF okm, of code] Br.prems(2) by (simp add: stepm)
  qed
qed

lemma walk_up_leaf:
  "tree_ok st None t \<Longrightarrow> wf_tree t \<Longrightarrow> a \<in> addrs t \<Longrightarrow> walk_up st a [] = Some (rev (path t a))"
  using walk_up_path[of st None t a "[]"] walk_up_top[of st t] by simp

lemma build_codes_loop_paths:
  assumes "tree_ok st None t" "wf_tree t"
    and "distinct xs" "\<forall>i\<in>set xs. i \<in> addrs t \<and> i < length cs \<and> cs ! i = []"
  shows "\<exists>cs'. build_codes_loop st xs cs = Some cs' \<and> length cs' = length cs \<and>
           (\<forall>i\<in>set xs. cs' ! i = path t i) \<and> (\<forall>i. i \<notin> set xs \<longrightarrow> cs' ! i = cs ! i)"
  using assms(3,4)
proof (induction xs arbitrary: cs)
  case Nil
  show ?case by simp
next
  case (Cons x xs)
  have w: "walk_up st x (cs ! x) = Some (rev (path t x))"
    using walk_up_leaf[OF assms(1,2), of x] Cons.prems(2) by simp
  let ?cs = "cs [x := path t x]"
  have "\<forall>i\<in>set xs. i \<in> addrs t \<and> i < length ?cs \<and> ?cs ! i = []"
    using Cons.prems by (auto simp: nth_list_update)
  from Cons.IH[OF _ this] Cons.prems(1)
  obtain cs' where cs': "build_codes_loop st xs ?cs = Some cs'" "length cs' = length ?cs"
      "\<forall>i\<in>set xs. cs' ! i = path t i" "\<forall>i. i \<notin> set xs \<longrightarrow> cs' ! i = ?cs ! i"
    by auto
  have "cs' ! x = path t x" using cs'(4) Cons.prems by simp
  then show ?case using cs' w by (auto simp: nth_list_update)
qed

lemma path_prefix_free:
  assumes "wf_tree t" "a \<in> leaf_addrs t" "a' \<in> leaf_addrs t" "prefix (path t a) (path t a')"
  shows "a = a'"
  using assms
proof (induction t)
  case (Leaf i w)
  then show ?case by simp
next
  case (Br b w l m)
  have sub: "leaf_addrs l \<subseteq> addrs l" "leaf_addrs m \<subseteq> addrs m" by (rule leaf_addrs_subset)+
  have nb: "a \<noteq> b" "a' \<noteq> b" using Br.prems(1-3) sub by auto
  have dis: "addrs l \<inter> addrs m = {}" using Br.prems(1) by simp
  show ?case
  proof (cases "a \<in> addrs l")
    case True
    then have a: "a \<in> leaf_addrs l" using Br.prems(2) sub dis by auto
    show ?thesis
    proof (cases "a' \<in> addrs l")
      case True
      then have "a' \<in> leaf_addrs l" using Br.prems(3) sub dis by auto
      then show ?thesis using Br.IH(1) Br.prems(1,4) a nb True \<open>a \<in> addrs l\<close> by simp
    next
      case False
      then show ?thesis using Br.prems(4) nb True by simp
    qed
  next
    case False
    then have a: "a \<in> leaf_addrs m" using Br.prems(2) sub by auto
    show ?thesis
    proof (cases "a' \<in> addrs l")
      case True
      then show ?thesis using Br.prems(4) nb False by simp
    next
      case F2: False
      then have "a' \<in> leaf_addrs m" using Br.prems(3) sub by auto
      then show ?thesis using Br.IH(2) Br.prems(1,4) a nb False F2 by simp
    qed
  qed
qed

lemma path_nonempty: "a \<in> addrs t \<Longrightarrow> a \<noteq> addr t \<Longrightarrow> path t a \<noteq> []"
  by (cases t) auto

lemma sum_list_update_int:
  "i < length xs \<Longrightarrow> sum_list (xs [i := c]) = sum_list xs - xs ! i + (c :: int)"
proof (induction xs arbitrary: i)
  case Nil
  then show ?case by simp
next
  case (Cons x xs)
  then show ?case by (cases i) simp_all
qed

lemma valid_counts_zero: "valid_counts (replicate 256 0)" "sum_list (replicate 256 (0::int)) = 0"
  by (simp_all add: valid_counts_def LONG_MAX_def sum_list_replicate)

lemma valid_counts_update:
  assumes "valid_counts cs" "i < 256" "0 \<le> c" "sum_list cs - cs ! i + c < LONG_MAX"
  shows "valid_counts (cs [i := c])"
proof -
  have "set (cs [i := c]) \<subseteq> insert c (set cs)" by (rule set_update_subset_insert)
  then have "\<forall>x\<in>set (cs [i := c]). 0 \<le> x" using assms(1,3) by (auto simp: valid_counts_def)
  then show ?thesis using assms by (simp add: valid_counts_def sum_list_update_int)
qed

lemma valid_counts_abc: "valid_counts ((replicate 256 0) [65 := 6, 66 := 3, 67 := 2])"
  by (intro valid_counts_update valid_counts_zero)
     (simp_all add: sum_list_update_int LONG_MAX_def sum_list_replicate)

lemma huffman_built:
  assumes "valid_counts cs"
  shows "\<exists>ct ct' t. build_tree (puff_analysis CodeTree_initialize cs) = Inr ct \<and>
           build_codes ct = Inr ct' \<and> store ct' = store ct \<and> root ct' = root ct \<and>
           (\<forall>a<256. get_code ct' a = path t a) \<and>
           tree_ok (store ct) None t \<and> wf_tree t \<and> addrs t = {..<511} \<and>
           length (store ct) = 511 \<and> root ct = Some 510 \<and> addr t = 510 \<and>
           weight t = sum_list cs \<and> (\<forall>i<256. count (store ct ! i) = cs ! i) \<and>
           (\<exists>f z. merges 255 (forest0 cs) f \<and> occupied f = {z} \<and> f ! z = Some t)"
proof -
  have len: "length cs = 256" using assms by (simp add: valid_counts_def)
  from build_tree_table[OF assms]
  obtain ct t where *: "build_tree (table cs) = Inr ct" "tree_ok (store ct) None t" "wf_tree t"
      "addrs t = {..<511}" "length (store ct) = 511" "root ct = Some 510" "addr t = 510"
      "weight t = sum_list cs" "codes ct = replicate 256 []"
      "\<forall>i<256. count (store ct ! i) = cs ! i"
      "\<exists>f z. merges 255 (forest0 cs) f \<and> occupied f = {z} \<and> f ! z = Some t"
    by blast
  have "\<forall>i\<in>set [0..<256]. i \<in> addrs t \<and> i < length (codes ct) \<and> codes ct ! i = []"
    using *(4,9) by simp
  from build_codes_loop_paths[OF *(2,3) _ this]
  obtain cs' where cs': "build_codes_loop (store ct) [0..<256] (codes ct) = Some cs'"
      "\<forall>i<256. cs' ! i = path t i"
    by auto
  define ct' where "ct' = ct \<lparr> codes := cs' \<rparr>"
  have "build_codes ct = Inr ct'" using cs'(1) by (simp add: build_codes_def ct'_def)
  moreover have "store ct' = store ct" "root ct' = root ct" "\<forall>a<256. get_code ct' a = path t a"
    using cs'(2) by (simp_all add: ct'_def get_code_def)
  moreover have "build_tree (puff_analysis CodeTree_initialize cs) = Inr ct"
    using *(1) len by (simp add: puff_analysis_table)
  ultimately show ?thesis using *(2-8,10,11) by blast
qed

text \<open>
  C7. For every frequency table (256 counts, none negative, with a sum below \<open>LONG_MAX\<close>)
  \<open>build_tree\<close> succeeds. The tree below the root has 256 leaves and exactly 255 inner
  nodes; the store holds these 511 nodes and no other; each of \<open>leaves[0..255]\<close> has no
  child, and each of the 255 allocated nodes has a \<open>less\<close> and a \<open>more\<close> child, which are
  two different nodes of the tree.
\<close>

theorem full_tree:
  assumes "valid_counts cs"
  shows "\<exists>ct t. build_tree (puff_analysis CodeTree_initialize cs) = Inr ct \<and>
           root ct = Some (addr t) \<and> tree_ok (store ct) None t \<and>
           leaf_nodes t = 256 \<and> internal_nodes t = 255 \<and> length (store ct) = 256 + 255 \<and>
           (\<forall>a<256. more_child (store ct ! a) = None \<and> less_child (store ct ! a) = None) \<and>
           (\<forall>a. 256 \<le> a \<and> a < 511 \<longrightarrow>
              (\<exists>l m. less_child (store ct ! a) = Some l \<and> more_child (store ct ! a) = Some m \<and>
                     l \<noteq> m \<and> l < 511 \<and> m < 511))"
proof -
  from huffman_built[OF assms]
  obtain ct t where *: "build_tree (puff_analysis CodeTree_initialize cs) = Inr ct"
      "tree_ok (store ct) None t" "wf_tree t" "addrs t = {..<511}" "length (store ct) = 511"
      "root ct = Some 510" "addr t = 510"
    by blast
  have "leaf_nodes t + internal_nodes t = 511" using card_addrs[OF *(3)] *(4) by simp
  then have n: "leaf_nodes t = 256" "internal_nodes t = 255"
    using leaf_internal[of t] by simp_all
  have ch: "(a < 256 \<longrightarrow> more_child (store ct ! a) = None \<and> less_child (store ct ! a) = None) \<and>
         (256 \<le> a \<longrightarrow> (\<exists>l m. less_child (store ct ! a) = Some l \<and>
            more_child (store ct ! a) = Some m \<and> l \<noteq> m \<and> l < 511 \<and> m < 511))" if "a < 511" for a
    using tree_ok_children[OF *(2,3), of a] that *(4) by simp
  show ?thesis using * n ch by (intro exI[of _ ct] exI[of _ t]) simp
qed

theorem full_tree_witness:
  "valid_counts ((replicate 256 0) [65 := 6, 66 := 3, 67 := 2]) \<and>
   (\<exists>ct t. build_tree (puff_analysis CodeTree_initialize ((replicate 256 0) [65 := 6, 66 := 3, 67 := 2]))
             = Inr ct \<and>
      root ct = Some (addr t) \<and> tree_ok (store ct) None t \<and>
      leaf_nodes t = 256 \<and> internal_nodes t = 255 \<and> length (store ct) = 511)"
proof -
  show ?thesis using full_tree[OF valid_counts_abc] valid_counts_abc by fastforce
qed

lemma built_codes:
  assumes "valid_counts cs"
  shows "\<exists>ct ct' t. build_tree (puff_analysis CodeTree_initialize cs) = Inr ct \<and>
           build_codes ct = Inr ct' \<and> tree_ok (store ct) None t \<and> wf_tree t \<and>
           leaf_addrs t = {..<256} \<and> 256 \<le> addr t \<and>
           (\<forall>a<256. get_code ct' a = path t a)"
proof -
  from huffman_built[OF assms]
  obtain ct ct' t where *: "build_tree (puff_analysis CodeTree_initialize cs) = Inr ct"
      "build_codes ct = Inr ct'" "\<forall>a<256. get_code ct' a = path t a"
      "tree_ok (store ct) None t" "wf_tree t" "addrs t = {..<511}" "addr t = 510"
    by blast
  have "{a \<in> {..<511::nat}. a < 256} = {..<256}" by auto
  then have "leaf_addrs t = {..<256}" using tree_ok_leaf_addrs[OF *(4)] by (simp only: *(6))
  then show ?thesis using * by (intro exI[of _ ct] exI[of _ ct'] exI[of _ t]) simp
qed

text \<open>
  C6. For every frequency table (256 counts, none negative, with a sum below \<open>LONG_MAX\<close>)
  \<open>build_tree\<close> and \<open>build_codes\<close> succeed, and for any two different symbols the code
  of the first is not a prefix of the code of the second. This holds for all 256 symbols,
  so in particular for those of non-zero weight.
\<close>

theorem codes_prefix_free:
  assumes "valid_counts cs" "a < 256" "b < 256" "a \<noteq> b"
  shows "\<exists>ct ct'. build_tree (puff_analysis CodeTree_initialize cs) = Inr ct \<and>
           build_codes ct = Inr ct' \<and> \<not> prefix (get_code ct' a) (get_code ct' b)"
proof -
  from built_codes[OF assms(1)]
  obtain ct ct' t where *: "build_tree (puff_analysis CodeTree_initialize cs) = Inr ct"
      "build_codes ct = Inr ct'" "wf_tree t" "leaf_addrs t = {..<256}"
      "\<forall>a<256. get_code ct' a = path t a"
    by blast
  have "\<not> prefix (path t a) (path t b)"
    using path_prefix_free[OF *(3), of a b] assms(2-4) *(4) by auto
  then show ?thesis using * assms(2,3) by auto
qed

theorem codes_prefix_free_witness:
  "valid_counts ((replicate 256 0) [65 := 6, 66 := 3, 67 := 2]) \<and>
   (\<exists>ct ct'. build_tree (puff_analysis CodeTree_initialize ((replicate 256 0) [65 := 6, 66 := 3, 67 := 2]))
               = Inr ct \<and>
      build_codes ct = Inr ct' \<and> \<not> prefix (get_code ct' 65) (get_code ct' 66))"
  using codes_prefix_free[OF valid_counts_abc, of 65 66] valid_counts_abc by simp

text \<open>
  C10. For every frequency table (256 counts, none negative, with a sum below
  \<open>LONG_MAX\<close>; the all-zero table and the tables with one non-zero count are among them)
  \<open>build_tree\<close> succeeds after 255 merges, each of which allocates one node, so the store
  ends with 256 + 255 nodes. The root is the node allocated last, not one of the leaves,
  and it has both children. \<open>build_codes\<close> returns, and the code of each of the 256
  symbols has at least one digit.
\<close>

theorem all_symbols_coded:
  assumes "valid_counts cs"
  shows "\<exists>ct ct' r. build_tree (puff_analysis CodeTree_initialize cs) = Inr ct \<and>
           length (store ct) = 256 + 255 \<and> root ct = Some r \<and> 256 \<le> r \<and>
           more_child (store ct ! r) \<noteq> None \<and> less_child (store ct ! r) \<noteq> None \<and>
           build_codes ct = Inr ct' \<and> (\<forall>s<256. 1 \<le> length (get_code ct' s))"
proof -
  from huffman_built[OF assms]
  obtain ct ct' t where *: "build_tree (puff_analysis CodeTree_initialize cs) = Inr ct"
      "build_codes ct = Inr ct'" "\<forall>a<256. get_code ct' a = path t a"
      "tree_ok (store ct) None t" "wf_tree t" "addrs t = {..<511}" "length (store ct) = 511"
      "root ct = Some 510" "addr t = 510"
    by blast
  have "more_child (store ct ! 510) \<noteq> None \<and> less_child (store ct ! 510) \<noteq> None"
    using tree_ok_children[OF *(4,5), of 510] *(6) by auto
  moreover have "1 \<le> length (get_code ct' s)" if "s < 256" for s
  proof -
    have "path t s \<noteq> []" using that *(6,9) by (intro path_nonempty) simp_all
    then show ?thesis using *(3) that by (cases "path t s") simp_all
  qed
  ultimately show ?thesis using *(1,2,7,8)
    by (intro exI[of _ ct] exI[of _ ct'] exI[of _ 510]) simp
qed

theorem all_symbols_coded_witness:
  "valid_counts (replicate 256 0) \<and>
   (\<exists>ct ct' r. build_tree (puff_analysis CodeTree_initialize (replicate 256 0)) = Inr ct \<and>
      length (store ct) = 511 \<and> root ct = Some r \<and> 256 \<le> r \<and>
      build_codes ct = Inr ct' \<and> 1 \<le> length (get_code ct' 0) \<and> 1 \<le> length (get_code ct' 255))"
proof -
  from all_symbols_coded[OF valid_counts_zero(1)]
  obtain ct ct' r where "build_tree (puff_analysis CodeTree_initialize (replicate 256 0)) = Inr ct"
      "length (store ct) = 256 + 255" "root ct = Some r" "256 \<le> r"
      "build_codes ct = Inr ct'" "\<forall>s<256. 1 \<le> length (get_code ct' s)"
    by blast
  then show ?thesis using valid_counts_zero(1) by (intro conjI exI[of _ ct] exI[of _ ct'] exI[of _ r]) simp_all
qed

lemma process_bit_0:
  "process_bit \<lparr> tree = ct, current = Some c \<rparr> 0 =
     Inr \<lparr> tree = ct, current = less_child (store ct ! c) \<rparr>"
  by (simp add: process_bit_def)

lemma process_bit_1:
  "process_bit \<lparr> tree = ct, current = Some c \<rparr> 1 =
     Inr \<lparr> tree = ct, current = more_child (store ct ! c) \<rparr>"
  by (simp add: process_bit_def)

lemma code_finished_leaf:
  "more_child (store ct ! c) = None \<Longrightarrow>
   code_finished \<lparr> tree = ct, current = Some c \<rparr> = Inr (int c, \<lparr> tree = ct, current = root ct \<rparr>)"
  by (simp add: code_finished_def)

lemma code_finished_inner:
  "more_child (store ct ! c) \<noteq> None \<Longrightarrow>
   code_finished \<lparr> tree = ct, current = Some c \<rparr> = Inr (- 1, \<lparr> tree = ct, current = Some c \<rparr>)"
  by (simp add: code_finished_def)

lemma leaf_not_top: "wf_tree t \<Longrightarrow> a \<in> leaf_addrs t \<Longrightarrow> (\<exists>b w l m. t = Br b w l m) \<Longrightarrow> a \<noteq> addr t"
  using leaf_addrs_subset by (cases t) auto

lemma decode_symbol:
  assumes "tree_ok (store ct) par u" "wf_tree u" "a \<in> leaf_addrs u" "a \<noteq> addr u"
  shows "decompress_loop tot (bits_of (path u a) @ rest) \<lparr> tree = ct, current = Some (addr u) \<rparr> cnt out =
           (if long_add cnt 1 = tot then Inr (out @ [word_of_int (int a)])
            else decompress_loop tot rest \<lparr> tree = ct, current = root ct \<rparr> (long_add cnt 1)
                   (out @ [word_of_int (int a)]))"
  using assms
proof (induction u arbitrary: par)
  case (Leaf i w)
  then show ?case by simp
next
  case (Br b w l m)
  have sub: "leaf_addrs l \<subseteq> addrs l" "leaf_addrs m \<subseteq> addrs m" by (rule leaf_addrs_subset)+
  have okl: "tree_ok (store ct) (Some b) l" and okm: "tree_ok (store ct) (Some b) m"
    and node: "more_child (store ct ! b) = Some (addr m)" "less_child (store ct ! b) = Some (addr l)"
    and wf: "wf_tree l" "wf_tree m" and dis: "addrs l \<inter> addrs m = {}"
    using Br.prems(1,2) by simp_all
  have ab: "a \<noteq> b" using Br.prems(4) by simp
  have down: "decompress_loop tot (bits_of (path v a) @ rest) \<lparr> tree = ct, current = Some (addr v) \<rparr> cnt out =
           (if long_add cnt 1 = tot then Inr (out @ [word_of_int (int a)])
            else decompress_loop tot rest \<lparr> tree = ct, current = root ct \<rparr> (long_add cnt 1)
                   (out @ [word_of_int (int a)]))"
    if ih: "\<And>par. tree_ok (store ct) par v \<Longrightarrow> wf_tree v \<Longrightarrow> a \<in> leaf_addrs v \<Longrightarrow> a \<noteq> addr v \<Longrightarrow>
        decompress_loop tot (bits_of (path v a) @ rest) \<lparr> tree = ct, current = Some (addr v) \<rparr> cnt out =
           (if long_add cnt 1 = tot then Inr (out @ [word_of_int (int a)])
            else decompress_loop tot rest \<lparr> tree = ct, current = root ct \<rparr> (long_add cnt 1)
                   (out @ [word_of_int (int a)]))"
      and v: "tree_ok (store ct) (Some b) v" "wf_tree v" "a \<in> leaf_addrs v"
      and inner: "more_child (store ct ! addr v) \<noteq> None" for v
  proof -
    have "a \<noteq> addr v" using v inner leaf_not_top[of v a] by (cases v) auto
    then show ?thesis using ih[OF v] by simp
  qed
  show ?case
  proof (cases "a \<in> addrs l")
    case True
    then have al: "a \<in> leaf_addrs l" using Br.prems(3) sub dis by auto
    have p: "path (Br b w l m) a = CHR ''0'' # path l a" using ab True by simp
    show ?thesis
    proof (cases "more_child (store ct ! addr l) = None")
      case leaf: True
      then have "l = Leaf a (weight l)" using okl al by (cases l) auto
      then have "path l a = []" "addr l = a" by (metis path.simps(1), metis addr.simps(1))
      then show ?thesis unfolding p using leaf
        by (simp add: bits_of_def process_bit_0 node code_finished_leaf)
    next
      case False
      then show ?thesis unfolding p using down[OF Br.IH(1) okl wf(1) al False]
        by (simp add: bits_of_def process_bit_0 node code_finished_inner)
    qed
  next
    case False
    then have am: "a \<in> leaf_addrs m" using Br.prems(3) sub by auto
    have p: "path (Br b w l m) a = CHR ''1'' # path m a" using ab False by simp
    show ?thesis
    proof (cases "more_child (store ct ! addr m) = None")
      case leaf: True
      then have "m = Leaf a (weight m)" using okm am by (cases m) auto
      then have "path m a = []" "addr m = a" by (metis path.simps(1), metis addr.simps(1))
      then show ?thesis unfolding p using leaf
        by (simp add: bits_of_def process_bit_1 node code_finished_leaf)
    next
      case False
      then show ?thesis unfolding p using down[OF Br.IH(2) okm wf(2) am False]
        by (simp add: bits_of_def process_bit_1 node code_finished_inner)
    qed
  qed
qed

lemma CodeTree_initialize_table: "CodeTree_initialize = table (replicate 256 0)"
  by (simp add: table_def CodeTree_initialize_def leaf_def)

lemma valid_counts_nth: "valid_counts cs \<Longrightarrow> i < 256 \<Longrightarrow> 0 \<le> cs ! i \<and> cs ! i \<le> sum_list cs"
  by (auto simp: valid_counts_def intro!: member_le_sum_list)

lemma increment_table:
  assumes "valid_counts cs" "b < 256" "sum_list cs + 1 < LONG_MAX"
  shows "increment (table cs) b = table (cs [b := cs ! b + 1])"
    and "valid_counts (cs [b := cs ! b + 1])"
    and "sum_list (cs [b := cs ! b + 1]) = sum_list cs + 1"
proof -
  have len: "length cs = 256" using assms(1) by (simp add: valid_counts_def)
  have r: "0 \<le> cs ! b" "cs ! b \<le> sum_list cs" using valid_counts_nth[OF assms(1,2)] by simp_all
  then have "long_add (cs ! b) 1 = cs ! b + 1"
    using assms(3) by (intro long_add_id) (simp_all add: LONG_MAX_def)
  then show "increment (table cs) b = table (cs [b := cs ! b + 1])"
    using assms(2) len by (simp add: increment_def table_def map_update leaf_def)
  show "valid_counts (cs [b := cs ! b + 1])"
    using assms r by (intro valid_counts_update) simp_all
  show "sum_list (cs [b := cs ! b + 1]) = sum_list cs + 1"
    using assms(2) len by (simp add: sum_list_update_int)
qed

lemma huff_analysis_table:
  assumes "valid_counts cs" "sum_list cs + int (length x) < LONG_MAX"
  shows "\<exists>cs'. huff_analysis (table cs) x = table cs' \<and> valid_counts cs' \<and>
           sum_list cs' = sum_list cs + int (length x)"
  using assms
proof (induction x arbitrary: cs)
  case Nil
  then show ?case by (intro exI[of _ cs]) (simp add: huff_analysis_def)
next
  case (Cons ch x)
  have b: "unat ch < 256" using unsigned_less[of ch, where ?'a = nat] by simp
  have s: "sum_list cs + 1 < LONG_MAX" using Cons.prems(2) by simp
  note inc = increment_table[OF Cons.prems(1) b s]
  have "sum_list (cs [unat ch := cs ! unat ch + 1]) + int (length x) < LONG_MAX"
    using Cons.prems(2) inc(3) by simp
  from Cons.IH[OF inc(2) this] inc(1,3) show ?case
    by (simp add: huff_analysis_def) (metis add.assoc)
qed

lemma sum_list_take_nonneg:
  assumes "\<forall>c\<in>set cs. (0::int) \<le> c"
  shows "0 \<le> sum_list (take k cs) \<and> sum_list (take k cs) \<le> sum_list cs"
proof -
  have "sum_list (take k cs) + sum_list (drop k cs) = sum_list cs"
    by (metis append_take_drop_id sum_list_append)
  moreover have "0 \<le> sum_list (take k cs)" "0 \<le> sum_list (drop k cs)"
    using assms by (auto intro!: sum_list_nonneg dest: in_set_takeD in_set_dropD)
  ultimately show ?thesis by simp
qed

lemma get_count_total_prefix:
  assumes "valid_counts cs" "\<forall>i<256. count (store ct ! i) = cs ! i" "k \<le> 256"
  shows "fold (\<lambda>i c. long_add c (count (store ct ! i))) [0..<k] 0 = sum_list (take k cs)"
  using assms(3)
proof (induction k)
  case 0
  show ?case by simp
next
  case (Suc k)
  have len: "length cs = 256" and nonneg: "\<forall>c\<in>set cs. 0 \<le> c" and lt: "sum_list cs < LONG_MAX"
    using assms(1) by (simp_all add: valid_counts_def)
  have tk: "take (Suc k) cs = take k cs @ [cs ! k]"
    using Suc.prems len by (simp add: take_Suc_conv_app_nth)
  have "0 \<le> sum_list (take (Suc k) cs)" "sum_list (take (Suc k) cs) \<le> sum_list cs"
    using sum_list_take_nonneg[OF nonneg, of "Suc k"] by simp_all
  then have "long_add (sum_list (take k cs)) (cs ! k) = sum_list (take k cs) + cs ! k"
    using lt by (intro long_add_id) (simp_all add: tk LONG_MAX_def)
  then show ?case using Suc assms(2) by (simp add: tk)
qed

lemma get_count_total_sum:
  assumes "valid_counts cs" "\<forall>i<256. count (store ct ! i) = cs ! i"
  shows "get_count_total ct = sum_list cs"
  using get_count_total_prefix[OF assms, of 256] assms(1)
  by (simp add: get_count_total_def valid_counts_def)

lemma decode_message:
  assumes t: "tree_ok (store ct) None t" "wf_tree t" "leaf_addrs t = {..<256}"
      "root ct = Some (addr t)" "256 \<le> addr t" "\<forall>a<256. get_code ct a = path t a"
    and xs: "\<forall>a\<in>set xs. a < 256" "xs \<noteq> []"
    and cnt: "0 \<le> cnt" "cnt + int (length xs) = tot" "tot < 2 ^ 63"
  shows "decompress_loop tot (concat (map (\<lambda>a. bits_of (get_code ct a)) xs) @ pad)
           \<lparr> tree = ct, current = root ct \<rparr> cnt out =
         Inr (out @ map (\<lambda>a. word_of_int (int a)) xs)"
  using xs cnt
proof (induction xs arbitrary: cnt out)
  case Nil
  then show ?case by simp
next
  case (Cons a xs)
  have a: "a \<in> leaf_addrs t" "a \<noteq> addr t" "get_code ct a = path t a"
    using Cons.prems(1) t(3,5,6) by auto
  have add: "long_add cnt 1 = cnt + 1"
    using Cons.prems(3-5) by (intro long_add_id) simp_all
  note sym = decode_symbol[OF t(1,2) a(1,2), of tot _ cnt out, folded t(4)]
  show ?case
  proof (cases "xs = []")
    case True
    then show ?thesis using sym[of pad] a(3) add Cons.prems(4) by simp
  next
    case False
    have "decompress_loop tot (concat (map (\<lambda>a. bits_of (get_code ct a)) xs) @ pad)
           \<lparr> tree = ct, current = root ct \<rparr> (cnt + 1) (out @ [word_of_int (int a)]) =
         Inr ((out @ [word_of_int (int a)]) @ map (\<lambda>a. word_of_int (int a)) xs)"
      using Cons.prems by (intro Cons.IH False) simp_all
    moreover have "cnt + 1 \<noteq> tot" using Cons.prems(4) False by (cases xs) simp_all
    ultimately show ?thesis
      using sym[of "concat (map (\<lambda>a. bits_of (get_code ct a)) xs) @ pad"] a(3) add by simp
  qed
qed

lemma header_counts:
  assumes "length cs = 256" "\<forall>i<256. count (store ct ! i) = cs ! i"
  shows "map (get_count ct) [0..<256] = cs"
  using assms by (intro nth_equalityI) (simp_all add: get_count_def)

lemma bytes_of_symbols: "map (\<lambda>a. word_of_int (int a)) (map unat x) = (x :: byte list)"
  by (induction x) simp_all

text \<open>
  C1. Let \<open>x\<close> be a byte sequence shorter than \<open>LONG_MAX\<close>, so that the counts fit in a
  \<open>long\<close>. \<open>huff\<close> succeeds on \<open>x\<close> and writes a file (the counts of \<open>x\<close>, then the codes
  of its bytes, then whatever bits \<open>close_bit\<close> pads the last byte with), and \<open>puff\<close>,
  which rebuilds the tree from the counts in that file and walks it bit by bit until it has
  written as many bytes as the counts add up to, returns exactly \<open>x\<close>.
\<close>

theorem round_trip:
  assumes "int (length x) < LONG_MAX"
  shows "\<exists>bf. huff x fill = Inr bf \<and> puff bf = Inr x"
proof -
  obtain cs where cs: "huff_analysis CodeTree_initialize x = table cs" "valid_counts cs"
      "sum_list cs = int (length x)"
    using huff_analysis_table[OF valid_counts_zero(1), of x] assms
    by (auto simp: CodeTree_initialize_table valid_counts_zero(2))
  have len: "length cs = 256" using cs(2) by (simp add: valid_counts_def)
  from huffman_built[OF cs(2)]
  obtain ct ct' t where *: "build_tree (puff_analysis CodeTree_initialize cs) = Inr ct"
      "build_codes ct = Inr ct'" "store ct' = store ct" "root ct' = root ct"
      "\<forall>a<256. get_code ct' a = path t a" "tree_ok (store ct) None t" "wf_tree t"
      "addrs t = {..<511}" "root ct = Some 510" "addr t = 510"
      "\<forall>i<256. count (store ct ! i) = cs ! i"
    by blast
  have tab: "puff_analysis CodeTree_initialize cs = table cs" using len by (rule puff_analysis_table)
  define B where "B = concat (map (\<lambda>a. bits_of (get_code ct' a)) (map unat x))"
  define pad where "pad = map fill [0..<(8 - length B mod 8) mod 8]"
  define bf where "bf = compress ct' x fill"
  have hd: "header bf = cs"
    using header_counts[OF len, of ct'] *(3,11) by (simp add: bf_def compress_def close_bit_def)
  have bd: "body bf = B @ pad"
    by (simp add: bf_def compress_def close_bit_def B_def pad_def bits_of_def comp_def)
  have huff: "huff x fill = Inr bf"
    using * by (simp add: huff_def cs(1) tab[symmetric] bf_def)
  have tot: "get_count_total ct' = int (length x)"
    using get_count_total_sum[OF cs(2), of ct'] *(3,11) cs(3) by simp
  have "{a \<in> {..<511::nat}. a < 256} = {..<256}" by auto
  then have leaves: "leaf_addrs t = {..<256}" using tree_ok_leaf_addrs[OF *(6)] by (simp only: *(8))
  have dec: "decompress ct' (B @ pad) = Inr x"
  proof (cases "x = []")
    case True
    then show ?thesis by (simp add: decompress_def B_def pad_def)
  next
    case False
    have "decompress_loop (int (length x)) (B @ pad) \<lparr> tree = ct', current = root ct' \<rparr> 0 [] =
          Inr ([] @ map (\<lambda>a. word_of_int (int a)) (map unat x))"
      unfolding B_def
    proof (rule decode_message[where t = t])
      show "tree_ok (store ct') None t" using *(3,6) by simp
      show "root ct' = Some (addr t)" using *(4,9,10) by simp
      show "256 \<le> addr t" using *(10) by simp
      show "\<forall>a\<in>set (map unat x). a < 256"
      proof
        fix a assume "a \<in> set (map unat x)"
        then obtain ch :: byte where "a = unat ch" by auto
        then show "a < 256" using unsigned_less[of ch, where ?'a = nat] by simp
      qed
      show "map unat x \<noteq> []" using False by simp
      show "int (length x) < 2 ^ 63" using assms by (simp add: LONG_MAX_def)
    qed (use * leaves in simp_all)
    then show ?thesis
      unfolding bytes_of_symbols by (simp add: decompress_def tot Walker_init_def)
  qed
  have "puff bf = Inr x" using * dec by (simp add: puff_def hd bd)
  then show ?thesis using huff by blast
qed

theorem round_trip_witness:
  "int (length [65, 65, 65, 65, 65, 65, 66, 66, 66, 67, 67 :: byte]) < LONG_MAX \<and>
   (\<exists>bf. huff [65, 65, 65, 65, 65, 65, 66, 66, 66, 67, 67] (\<lambda>i. False) = Inr bf \<and>
      puff bf = Inr [65, 65, 65, 65, 65, 65, 66, 66, 66, 67, 67])"
proof -
  have "int (length [65, 65, 65, 65, 65, 65, 66, 66, 66, 67, 67 :: byte]) < LONG_MAX"
    by (simp add: LONG_MAX_def)
  then show ?thesis using round_trip[of "[65, 65, 65, 65, 65, 65, 66, 66, 66, 67, 67]" "\<lambda>i. False"]
    by blast
qed




lemma before_irrefl: "\<not> before f i i"
  by (simp add: before_def)

lemma before_asym: "before f i j \<Longrightarrow> \<not> before f j i"
  by (auto simp: before_def)

lemma fmin_unique:
  assumes "fmin f A s" "i \<in> A" "\<forall>j\<in>A. j \<noteq> i \<longrightarrow> before f i j"
  shows "s = i"
proof (rule ccontr)
  assume "s \<noteq> i"
  then have "before f s i" "before f i s" using assms by (auto simp: fmin_def)
  then show False using before_asym by blast
qed

lemma untouched:
  assumes "fmin f A s" "fmin f (A - {s}) n" "i \<in> A" "j \<in> A" "i \<noteq> j"
    and "before f i h" "before f j h"
  shows "s \<noteq> h \<and> n \<noteq> h"
proof
  show "s \<noteq> h"
  proof
    assume "s = h"
    then have "i \<noteq> h \<longrightarrow> before f h i" using assms(1,3) by (auto simp: fmin_def)
    then show False using assms(6) before_asym before_irrefl by blast
  qed
  show "n \<noteq> h"
  proof
    assume n: "n = h"
    obtain k where k: "k \<in> A - {s}" "before f k h" using assms(3-7) by (cases "i = s") auto
    then have "k \<noteq> h \<longrightarrow> before f h k" using assms(2) n by (auto simp: fmin_def)
    then show False using k(2) before_asym before_irrefl by blast
  qed
qed

lemma merge_rel_result:
  assumes "merge_rel f f'"
  shows "\<exists>s n ts tn t. fmin f (occupied f) s \<and> fmin f (occupied f - {s}) n \<and> s \<noteq> n \<and>
           s < 256 \<and> n < 256 \<and> f ! s = Some ts \<and> f ! n = Some tn \<and>
           f' = f [min s n := Some t, max s n := None] \<and>
           addr t = 512 - card (occupied f) \<and> weight t = weight ts + weight tn"
proof -
  obtain s n where sn: "fmin f (occupied f) s" "fmin f (occupied f - {s}) n"
      "f' = a_merge f s n (512 - card (occupied f))"
    using assms by (auto simp: merge_rel_def)
  have "s \<in> occupied f" "n \<in> occupied f" "s \<noteq> n" using sn(1,2) by (auto simp: fmin_def)
  then obtain ts tn where t: "s < 256" "n < 256" "f ! s = Some ts" "f ! n = Some tn"
    by (auto simp: occupied_def)
  from a_merge_eq[OF \<open>s \<noteq> n\<close> t(3,4), of "512 - card (occupied f)"] sn t \<open>s \<noteq> n\<close>
  show ?thesis by blast
qed

lemma merge_rel_step:
  assumes "merge_rel f f'" "i \<in> occupied f" "j \<in> occupied f" "i \<noteq> j"
    and "\<forall>k\<in>occupied f. k \<noteq> i \<longrightarrow> before f i k"
    and "\<forall>k\<in>occupied f. k \<noteq> i \<longrightarrow> k \<noteq> j \<longrightarrow> before f j k"
    and "f ! i = Some ti" "f ! j = Some tj"
  shows "f' = f [min i j := Some (Br (512 - card (occupied f)) (weight ti + weight tj) ti tj),
                 max i j := None]"
proof -
  obtain s n where sn: "fmin f (occupied f) s" "fmin f (occupied f - {s}) n"
      "f' = a_merge f s n (512 - card (occupied f))"
    using assms(1) by (auto simp: merge_rel_def)
  have s: "s = i" using fmin_unique[OF sn(1) assms(2,5)] .
  have n: "n = j" using fmin_unique[OF sn(2), of j] assms(3,4,6) s by auto
  have "before f i j" using assms(3,4,5) by auto
  then have "weight ti \<noteq> weight tj \<or> i < j" using assms(7,8) by (auto simp: before_def)
  then show ?thesis using assms(4,7,8)
    by (auto simp: sn(3) s n a_merge_def Let_def min_def max_def)
qed

lemma occupied_update:
  assumes "length f = 256" "p \<in> occupied f" "q \<in> occupied f" "p \<noteq> q"
  shows "occupied (f [p := Some t, q := None]) = occupied f - {q}"
proof -
  have "k \<in> occupied (f [p := Some t, q := None]) \<longleftrightarrow> k \<in> occupied f - {q}" for k
    using assms by (cases "k < 256") (auto simp: occupied_def nth_list_update)
  then show ?thesis by blast
qed

lemma nth_update2:
  "length f = 256 \<Longrightarrow> p \<noteq> q \<Longrightarrow> p < 256 \<Longrightarrow> q < 256 \<Longrightarrow> k < 256 \<Longrightarrow>
   f [p := x, q := y] ! k = (if k = q then y else if k = p then x else f ! k)"
  by (simp add: nth_list_update)

lemma zero_phase:
  assumes len: "length cs = 256" and H: "H \<subseteq> {..<256}"
    and zero: "\<forall>i<256. i \<notin> H \<longrightarrow> cs ! i = 0"
    and prot: "\<forall>h\<in>H. \<forall>i<256. i \<notin> H \<longrightarrow> 0 < cs ! h \<or> (cs ! h = 0 \<and> i < h)"
  shows "merges k (forest0 cs) f \<Longrightarrow> k + card H \<le> 255 \<Longrightarrow>
         length f = 256 \<and> (\<forall>h\<in>H. f ! h = Some (Leaf h (cs ! h))) \<and>
         (\<forall>i\<in>occupied f - H. wt (f ! i) = 0) \<and> card (occupied f) = 256 - k"
proof (induction k arbitrary: f)
  case 0
  then have f: "f = forest0 cs" by simp
  have "\<forall>h\<in>H. f ! h = Some (Leaf h (cs ! h))" using H by (auto simp: f forest0_nth)
  moreover have "\<forall>i\<in>occupied f - H. wt (f ! i) = 0"
    using zero by (auto simp: f occupied_forest0 forest0_nth)
  ultimately show ?case by (simp add: f occupied_forest0) (simp add: forest0_def)
next
  case (Suc k)
  then obtain f0 where f0: "merges k (forest0 cs) f0" "merge_rel f0 f" by auto
  have ih: "length f0 = 256" "\<forall>h\<in>H. f0 ! h = Some (Leaf h (cs ! h))"
      "\<forall>i\<in>occupied f0 - H. wt (f0 ! i) = 0" "card (occupied f0) = 256 - k"
    using Suc.IH[OF f0(1)] Suc.prems(2) by simp_all
  have finH: "finite H" using H by (rule finite_subset) simp
  have HO: "H \<subseteq> occupied f0" using ih(2) H by (auto simp: occupied_def)
  have "card (occupied f0 - H) = card (occupied f0) - card H"
    using HO finH by (simp add: card_Diff_subset)
  then have "2 \<le> card (occupied f0 - H)" using ih(4) Suc.prems(2) by simp
  then obtain i j where ij: "i \<in> occupied f0 - H" "j \<in> occupied f0 - H" "i \<noteq> j"
    using two_elements by blast
  have bef: "before f0 i h" if "i \<in> occupied f0 - H" "h \<in> H" for i h
  proof -
    have "i < 256" "i \<notin> H" "wt (f0 ! i) = 0" using that(1) ih(3) by (auto simp: occupied_def)
    moreover have "wt (f0 ! h) = cs ! h" using ih(2) that(2) by simp
    ultimately show ?thesis using prot that(2) by (auto simp: before_def)
  qed
  from merge_rel_result[OF f0(2)]
  obtain s n ts tn t where r: "fmin f0 (occupied f0) s" "fmin f0 (occupied f0 - {s}) n" "s \<noteq> n"
      "s < 256" "n < 256" "f0 ! s = Some ts" "f0 ! n = Some tn"
      "f = f0 [min s n := Some t, max s n := None]" "weight t = weight ts + weight tn"
    by blast
  have snH: "s \<notin> H" "n \<notin> H"
    using untouched[OF r(1,2), of i j] ij bef by blast+
  have occ: "s \<in> occupied f0" "n \<in> occupied f0" using r(4-7) by (simp_all add: occupied_def)
  have w0: "weight ts = 0" "weight tn = 0"
    using ih(3) occ snH r(6,7) by (metis Diff_iff wt.simps(2))+
  have mm: "min s n \<in> occupied f0" "max s n \<in> occupied f0" "min s n \<noteq> max s n"
      "min s n \<notin> H" "max s n \<notin> H" "min s n < 256" "max s n < 256"
    using occ snH r(3,4,5) by (auto simp: min_def max_def)
  have occ': "occupied f = occupied f0 - {max s n}"
    unfolding r(8) using occupied_update[OF ih(1) mm(1,2,3)] .
  have nth': "f ! k = (if k = max s n then None else if k = min s n then Some t else f0 ! k)"
    if "k < 256" for k
    unfolding r(8) using nth_update2[OF ih(1) mm(3,6,7) that] .
  have "\<forall>h\<in>H. f ! h = Some (Leaf h (cs ! h))"
    using ih(2) mm(4,5) H by (auto simp: nth')
  moreover have "\<forall>k\<in>occupied f - H. wt (f ! k) = 0"
  proof
    fix k assume k: "k \<in> occupied f - H"
    then have k256: "k < 256" "k \<noteq> max s n" "k \<in> occupied f0 - H"
      unfolding occ' by (auto simp: occupied_def)
    show "wt (f ! k) = 0"
      using k256 ih(3) r(9) w0 by (simp add: nth'[OF k256(1)])
  qed
  moreover have "card (occupied f) = 256 - Suc k"
    using ih(4) mm(2) by (simp add: occ' finite_occupied)
  moreover have "length f = 256" using ih(1) by (simp add: r(8))
  ultimately show ?case by simp
qed

lemma after_zero_phase:
  assumes "length f = 256" "\<forall>h\<in>H. f ! h = Some (Leaf h (cs ! h))" "H \<subseteq> {..<256}"
    and "\<forall>i\<in>occupied f - H. wt (f ! i) = 0" "card (occupied f) = Suc (card H)"
  shows "\<exists>z tz. z \<notin> H \<and> occupied f = insert z H \<and> f ! z = Some tz \<and> weight tz = 0"
proof -
  have finH: "finite H" using assms(3) by (rule finite_subset) simp
  have HO: "H \<subseteq> occupied f" using assms(2,3) by (auto simp: occupied_def)
  have "card (occupied f - H) = 1"
    using HO finH assms(5) by (simp add: card_Diff_subset)
  then obtain z where z: "occupied f - H = {z}" by (auto simp: card_1_singleton_iff)
  then have "z \<in> occupied f" "z \<notin> H" by auto
  then obtain tz where tz: "f ! z = Some tz" by (auto simp: occupied_def)
  have "wt (f ! z) = 0" using assms(4) z by auto
  then have "weight tz = 0" using tz by simp
  moreover have "occupied f = insert z H" using z HO by auto
  ultimately show ?thesis using tz \<open>z \<notin> H\<close> by blast
qed

lemma absorb_step:
  assumes len: "length f = 256" and occ: "occupied f = insert p R" "p \<notin> R" "finite R"
    and fp: "f ! p = Some u"
    and leaves: "\<forall>h\<in>R. f ! h = Some (Leaf h (cs ! h))"
    and j: "j \<in> R" "weight u < cs ! j \<or> (weight u = cs ! j \<and> p < j)"
      "\<forall>h\<in>R. h \<noteq> j \<longrightarrow> cs ! j < cs ! h \<or> (cs ! j = cs ! h \<and> j < h)"
      "\<forall>h\<in>R. h \<noteq> j \<longrightarrow> weight u < cs ! h \<or> (weight u = cs ! h \<and> p < h)"
    and step: "merge_rel f f'"
  shows "\<exists>p'. p' \<notin> R - {j} \<and> occupied f' = insert p' (R - {j}) \<and> length f' = 256 \<and>
           f' ! p' = Some (Br (511 - card R) (weight u + cs ! j) u (Leaf j (cs ! j))) \<and>
           (\<forall>h\<in>R - {j}. f' ! h = Some (Leaf h (cs ! h)))"
proof -
  have pj: "p \<noteq> j" using occ(2) j(1) by auto
  have p256: "p < 256" and j256: "j < 256" using occ(1) j(1) by (auto simp: occupied_def)
  have wl: "wt (f ! h) = cs ! h" if "h \<in> R" for h using leaves that by simp
  have b1: "\<forall>k\<in>occupied f. k \<noteq> p \<longrightarrow> before f p k"
    using j(2,4) fp wl by (auto simp: occ(1) before_def)
  have b2: "\<forall>k\<in>occupied f. k \<noteq> p \<longrightarrow> k \<noteq> j \<longrightarrow> before f j k"
    using j(1,3) wl by (auto simp: occ(1) before_def)
  have fj: "f ! j = Some (Leaf j (cs ! j))" using leaves j(1) by simp
  have card: "card (occupied f) = Suc (card R)" using occ by simp
  have f': "f' = f [min p j := Some (Br (511 - card R) (weight u + cs ! j) u (Leaf j (cs ! j))),
                   max p j := None]"
    using merge_rel_step[OF step _ _ pj b1 b2 fp fj] occ(1) j(1) card by simp
  have mm: "min p j \<in> occupied f" "max p j \<in> occupied f" "min p j \<noteq> max p j"
      "min p j < 256" "max p j < 256"
    using pj p256 j256 occ(1) j(1) by (auto simp: min_def max_def)
  have occ': "occupied f' = occupied f - {max p j}"
    unfolding f' using occupied_update[OF len mm(1,2,3)] .
  have nth': "f' ! k = (if k = max p j then None else if k = min p j then
        Some (Br (511 - card R) (weight u + cs ! j) u (Leaf j (cs ! j))) else f ! k)"
    if "k < 256" for k
    unfolding f' using nth_update2[OF len mm(3,4,5) that] .
  have R256: "\<forall>h\<in>R. h < 256" using occ(1) by (auto simp: occupied_def)
  show ?thesis
  proof (intro exI[of _ "min p j"] conjI)
    show "min p j \<notin> R - {j}" using occ(2) by (auto simp: min_def)
    show "occupied f' = insert (min p j) (R - {j})"
      using pj occ(2) j(1) by (auto simp: occ' occ(1) min_def max_def)
    show "length f' = 256" using len by (simp add: f')
    show "f' ! min p j = Some (Br (511 - card R) (weight u + cs ! j) u (Leaf j (cs ! j)))"
      using nth'[OF mm(4)] mm(3) by simp
    show "\<forall>h\<in>R - {j}. f' ! h = Some (Leaf h (cs ! h))"
    proof
      fix h assume h: "h \<in> R - {j}"
      then have "h \<noteq> p" "h \<noteq> j" "h < 256" using occ(2) R256 by auto
      then have "h \<noteq> max p j" "h \<noteq> min p j" by (auto simp: min_def max_def)
      then show "f' ! h = Some (Leaf h (cs ! h))" using nth'[OF \<open>h < 256\<close>] leaves h by simp
    qed
  qed
qed

lemma single_protected:
  assumes valid: "valid_counts cs" and a: "a < 256"
    and zero: "\<forall>i<256. i \<noteq> a \<longrightarrow> cs ! i = 0" and prot: "0 < cs ! a \<or> a = 255"
    and ms: "merges 255 (forest0 cs) f" and occ: "occupied f = {z}" "f ! z = Some t"
  shows "\<exists>tz. t = Br 510 (cs ! a) tz (Leaf a (cs ! a)) \<and> weight tz = 0"
proof -
  have len: "length cs = 256" using valid by (simp add: valid_counts_def)
  have ge: "0 \<le> cs ! a" using valid_counts_nth[OF valid a] by simp
  have e: "(255::nat) = Suc 254" by simp
  obtain f1 where f1: "merges 254 (forest0 cs) f1" "merge_rel f1 f"
    using ms unfolding e merges.simps by blast
  have "\<forall>h\<in>{a}. \<forall>i<256. i \<notin> {a} \<longrightarrow> 0 < cs ! h \<or> (cs ! h = 0 \<and> i < h)"
    using prot ge by auto
  from zero_phase[OF len _ _ this f1(1)] a zero
  have p: "length f1 = 256" "\<forall>h\<in>{a}. f1 ! h = Some (Leaf h (cs ! h))"
      "\<forall>i\<in>occupied f1 - {a}. wt (f1 ! i) = 0" "card (occupied f1) = 2"
    by simp_all
  from after_zero_phase[OF p(1,2) _ p(3)] a p(4)
  obtain z1 tz where z1: "z1 \<notin> {a}" "occupied f1 = insert z1 {a}" "f1 ! z1 = Some tz" "weight tz = 0"
    by auto
  have "z1 < 256" using z1(2) by (auto simp: occupied_def)
  then have "weight tz < cs ! a \<or> (weight tz = cs ! a \<and> z1 < a)"
    using prot ge z1(1,4) by auto
  from absorb_step[OF p(1) z1(2,1) _ z1(3) p(2) _ this _ _ f1(2)]
  obtain p' where "occupied f = insert p' ({a} - {a})"
      "f ! p' = Some (Br (511 - card {a}) (weight tz + cs ! a) tz (Leaf a (cs ! a)))"
    by auto
  then show ?thesis using occ z1(4) by auto
qed

lemma abc_nth:
  "((replicate 256 0) [65 := 6, 66 := 3, 67 := 2]) ! i =
     (if i = 67 then 2 else if i = 66 then 3 else if i = 65 then 6 else (0::int))" if "i < 256"
  using that by (simp add: nth_list_update)

lemma abc_final:
  assumes ms: "merges 255 (forest0 ((replicate 256 0) [65 := 6, 66 := 3, 67 := 2])) f"
    and occ: "occupied f = {z}" "f ! z = Some t"
  shows "\<exists>tz. t = Br 510 11 (Br 509 5 (Br 508 2 tz (Leaf 67 2)) (Leaf 66 3)) (Leaf 65 6) \<and>
              weight tz = 0"
proof -
  let ?cs = "(replicate 256 (0::int)) [65 := 6, 66 := 3, 67 := 2]"
  have c: "?cs ! 65 = 6" "?cs ! 66 = 3" "?cs ! 67 = 2" by (simp_all add: abc_nth)
  have e: "(255::nat) = Suc (Suc (Suc 252))" by simp
  obtain f1 f2 f3 where f: "merges 252 (forest0 ?cs) f1" "merge_rel f1 f2"
      "merge_rel f2 f3" "merge_rel f3 f"
    using ms unfolding e merges.simps by blast
  have "\<forall>h\<in>{65, 66, 67}. \<forall>i<256. i \<notin> {65, 66, 67} \<longrightarrow> 0 < ?cs ! h \<or> (?cs ! h = 0 \<and> i < h)"
    by (simp add: c)
  moreover have "\<forall>i<256. i \<notin> {65, 66, 67} \<longrightarrow> ?cs ! i = 0" by (simp add: abc_nth)
  ultimately have p: "length f1 = 256" "\<forall>h\<in>{65, 66, 67}. f1 ! h = Some (Leaf h (?cs ! h))"
      "\<forall>i\<in>occupied f1 - {65, 66, 67}. wt (f1 ! i) = 0" "card (occupied f1) = 4"
    using zero_phase[OF _ _ _ _ f(1), of "{65, 66, 67}"] by simp_all
  from after_zero_phase[OF p(1,2) _ p(3)] p(4)
  obtain z1 tz where z1: "z1 \<notin> {65, 66, 67}" "occupied f1 = insert z1 {65, 66, 67}"
      "f1 ! z1 = Some tz" "weight tz = 0"
    by auto
  from absorb_step[OF p(1) z1(2,1) _ z1(3) p(2), of 67 f2] f(2) z1(4)
  obtain p2 where 2: "p2 \<notin> {65, 66}" "occupied f2 = insert p2 {65, 66}" "length f2 = 256"
      "f2 ! p2 = Some (Br 508 2 tz (Leaf 67 2))" "\<forall>h\<in>{65, 66}. f2 ! h = Some (Leaf h (?cs ! h))"
    by (auto simp: c insert_Diff_if)
  from absorb_step[OF 2(3,2,1) _ 2(4,5), of 66 f3] f(3)
  obtain p3 where 3: "p3 \<notin> {65}" "occupied f3 = insert p3 {65}" "length f3 = 256"
      "f3 ! p3 = Some (Br 509 5 (Br 508 2 tz (Leaf 67 2)) (Leaf 66 3))"
      "\<forall>h\<in>{65}. f3 ! h = Some (Leaf h (?cs ! h))"
    by (auto simp: c insert_Diff_if)
  from absorb_step[OF 3(3,2,1) _ 3(4,5), of 65 f] f(4)
  obtain p4 where 4: "occupied f = insert p4 {}"
      "f ! p4 = Some (Br 510 11 (Br 509 5 (Br 508 2 tz (Leaf 67 2)) (Leaf 66 3)) (Leaf 65 6))"
    by (auto simp: c)
  then show ?thesis using occ z1(4) by auto
qed

lemma huffman_single:
  assumes valid: "valid_counts cs" and a: "a < 256"
    and zero: "\<forall>i<256. i \<noteq> a \<longrightarrow> cs ! i = 0" and prot: "0 < cs ! a \<or> a = 255"
  shows "\<exists>ct l. huffman cs = Inr ct \<and> root ct = Some 510 \<and> length (store ct) = 511 \<and>
           store ct ! 510 = \<lparr> count = cs ! a, parent = None, more_child = Some a, less_child = Some l \<rparr> \<and>
           count (store ct ! l) = 0 \<and> more_child (store ct ! a) = None \<and> get_code ct a = ''1'' \<and>
           (\<forall>i<256. count (store ct ! i) = cs ! i)"
proof -
  from huffman_built[OF valid]
  obtain ct ct' t f z where *: "build_tree (puff_analysis CodeTree_initialize cs) = Inr ct"
      "build_codes ct = Inr ct'" "store ct' = store ct" "root ct' = root ct"
      "\<forall>a<256. get_code ct' a = path t a" "tree_ok (store ct) None t" "wf_tree t"
      "length (store ct) = 511" "root ct = Some 510" "\<forall>i<256. count (store ct ! i) = cs ! i"
      "merges 255 (forest0 cs) f" "occupied f = {z}" "f ! z = Some t"
    by blast
  from single_protected[OF valid a zero prot *(11,12,13)]
  obtain tz where t: "t = Br 510 (cs ! a) tz (Leaf a (cs ! a))" "weight tz = 0" by blast
  have node: "store ct ! 510 = \<lparr> count = cs ! a, parent = None, more_child = Some a,
      less_child = Some (addr tz) \<rparr>"
    and tz: "tree_ok (store ct) (Some 510) tz" and la: "more_child (store ct ! a) = None"
    using *(6) unfolding t by simp_all
  have "a \<notin> addrs tz" using *(7) unfolding t by simp
  then have "path t a = ''1''" using a unfolding t by simp
  then have "get_code ct' a = ''1''" using *(5) a by simp
  moreover have "count (store ct ! addr tz) = 0" using tree_ok_top[OF tz] t(2) by simp
  moreover have "huffman cs = Inr ct'" using *(1,2) by (simp add: huffman_def)
  ultimately show ?thesis using * node la by (intro exI[of _ ct'] exI[of _ "addr tz"]) simp
qed

lemma valid_counts_single: "valid_counts ((replicate 256 0) [65 := 4])"
  by (intro valid_counts_update valid_counts_zero)
     (simp_all add: sum_list_update_int LONG_MAX_def sum_list_replicate)

text \<open>
  C5, as stated, fails: for the table whose only non-zero count is 4, for the byte 65, the
  root of the built tree is the node at address 510, allocated by the last merge, and it has
  both children; it is not a leaf.
\<close>

theorem single_symbol_root_counterexample:
  "(case huffman ((replicate 256 0) [65 := 4]) of
      Inl e \<Rightarrow> False
    | Inr ct \<Rightarrow> root ct = Some 510 \<and> more_child (store ct ! 510) = Some 65 \<and>
        less_child (store ct ! 510) \<noteq> None)"
proof -
  have "\<forall>i<256. i \<noteq> 65 \<longrightarrow> ((replicate 256 0) [65 := 4]) ! i = (0::int)" by simp
  from huffman_single[OF valid_counts_single _ this] show ?thesis by auto
qed

text \<open>
  C5, amended. For a frequency table (256 counts, none negative, with a sum below
  \<open>LONG_MAX\<close>) in which exactly one symbol \<open>a\<close> has a non-zero count, tree construction
  succeeds and produces the full tree over all 256 leaves: the store holds 511 nodes, the
  root is the node allocated by the last merge, its \<open>more\<close> child is the leaf of \<open>a\<close>, its
  \<open>less\<close> child is a node of weight 0 (it joins the 255 leaves of count zero), and the
  code of \<open>a\<close> is the single digit 1.
\<close>

theorem single_symbol_tree:
  assumes "valid_counts cs" "a < 256" "cs ! a \<noteq> 0" "\<forall>i<256. i \<noteq> a \<longrightarrow> cs ! i = 0"
  shows "\<exists>ct l. huffman cs = Inr ct \<and> root ct = Some 510 \<and> length (store ct) = 511 \<and>
           more_child (store ct ! 510) = Some a \<and> less_child (store ct ! 510) = Some l \<and>
           count (store ct ! 510) = cs ! a \<and> count (store ct ! l) = 0 \<and>
           more_child (store ct ! a) = None \<and> get_code ct a = ''1''"
proof -
  have "0 < cs ! a" using valid_counts_nth[OF assms(1,2)] assms(3) by simp
  then have "0 < cs ! a \<or> a = 255" by simp
  from huffman_single[OF assms(1,2,4) this] show ?thesis by fastforce
qed

theorem single_symbol_tree_witness:
  "valid_counts ((replicate 256 0) [65 := 4]) \<and>
   (\<exists>ct l. huffman ((replicate 256 0) [65 := 4]) = Inr ct \<and> root ct = Some 510 \<and>
      length (store ct) = 511 \<and> more_child (store ct ! 510) = Some 65 \<and>
      less_child (store ct ! 510) = Some l \<and> count (store ct ! 510) = 4 \<and>
      count (store ct ! l) = 0 \<and> get_code ct 65 = ''1'')"
proof -
  have "\<forall>i<256. i \<noteq> 65 \<longrightarrow> ((replicate 256 0) [65 := 4]) ! i = (0::int)" by simp
  from single_symbol_tree[OF valid_counts_single _ _ this] valid_counts_single
  show ?thesis by fastforce
qed

lemma huffman_abc:
  "\<exists>ct z. huffman ((replicate 256 0) [65 := 6, 66 := 3, 67 := 2]) = Inr ct \<and>
     get_code ct 65 = ''1'' \<and> get_code ct 66 = ''01'' \<and> get_code ct 67 = ''001'' \<and>
     root ct = Some 510 \<and>
     store ct ! 510 = \<lparr> count = 11, parent = None, more_child = Some 65, less_child = Some 509 \<rparr> \<and>
     store ct ! 509 = \<lparr> count = 5, parent = Some 510, more_child = Some 66, less_child = Some 508 \<rparr> \<and>
     store ct ! 508 = \<lparr> count = 2, parent = Some 509, more_child = Some 67, less_child = Some z \<rparr> \<and>
     count (store ct ! z) = 0 \<and>
     store ct ! 65 = \<lparr> count = 6, parent = Some 510, more_child = None, less_child = None \<rparr> \<and>
     store ct ! 66 = \<lparr> count = 3, parent = Some 509, more_child = None, less_child = None \<rparr> \<and>
     store ct ! 67 = \<lparr> count = 2, parent = Some 508, more_child = None, less_child = None \<rparr>"
proof -
  let ?cs = "(replicate 256 (0::int)) [65 := 6, 66 := 3, 67 := 2]"
  from huffman_built[OF valid_counts_abc]
  obtain ct ct' t f z where *: "build_tree (puff_analysis CodeTree_initialize ?cs) = Inr ct"
      "build_codes ct = Inr ct'" "store ct' = store ct" "root ct' = root ct"
      "\<forall>a<256. get_code ct' a = path t a" "tree_ok (store ct) None t" "wf_tree t"
      "root ct = Some 510"
      "merges 255 (forest0 ?cs) f" "occupied f = {z}" "f ! z = Some t"
    by blast
  from abc_final[OF *(9,10,11)]
  obtain tz where t: "t = Br 510 11 (Br 509 5 (Br 508 2 tz (Leaf 67 2)) (Leaf 66 3)) (Leaf 65 6)"
      "weight tz = 0"
    by blast
  have nodes:
      "store ct ! 510 = \<lparr> count = 11, parent = None, more_child = Some 65, less_child = Some 509 \<rparr>"
      "store ct ! 509 = \<lparr> count = 5, parent = Some 510, more_child = Some 66, less_child = Some 508 \<rparr>"
      "store ct ! 508 = \<lparr> count = 2, parent = Some 509, more_child = Some 67, less_child = Some (addr tz) \<rparr>"
      "store ct ! 65 = \<lparr> count = 6, parent = Some 510, more_child = None, less_child = None \<rparr>"
      "store ct ! 66 = \<lparr> count = 3, parent = Some 509, more_child = None, less_child = None \<rparr>"
      "store ct ! 67 = \<lparr> count = 2, parent = Some 508, more_child = None, less_child = None \<rparr>"
    and tz: "tree_ok (store ct) (Some 508) tz"
    using *(6) unfolding t by simp_all
  have notin: "65 \<notin> addrs tz" "66 \<notin> addrs tz" "67 \<notin> addrs tz" using *(7) unfolding t by auto
  have "path t 65 = ''1''" "path t 66 = ''01''" "path t 67 = ''001''"
    using notin unfolding t by simp_all
  then have "get_code ct' 65 = ''1''" "get_code ct' 66 = ''01''" "get_code ct' 67 = ''001''"
    using *(5) by simp_all
  moreover have "count (store ct ! addr tz) = 0" using tree_ok_top[OF tz] t(2) by simp
  moreover have "huffman ?cs = Inr ct'" using *(1,2) by (simp add: huffman_def)
  ultimately show ?thesis using *(3,4,8) nodes
    by (intro exI[of _ ct'] exI[of _ "addr tz"]) simp
qed

text \<open>
  C4, as stated, fails: for the counts of \<open>A A A A A A B B B C C\<close> (6 for byte 65, 3 for
  byte 66, 2 for byte 67, 0 for the 253 others) the derived codes are not \<open>1\<close>, \<open>01\<close> and
  \<open>00\<close>.
\<close>

theorem abc_codes_counterexample:
  "\<not> (case huffman ((replicate 256 0) [65 := 6, 66 := 3, 67 := 2]) of
        Inl e \<Rightarrow> False
      | Inr ct \<Rightarrow> get_code ct 65 = ''1'' \<and> get_code ct 66 = ''01'' \<and> get_code ct 67 = ''00'')"
  using huffman_abc by auto

text \<open>
  C4, amended. For these counts building the tree and deriving the codes succeeds and
  yields the codes \<open>1\<close> for A, \<open>01\<close> for B and \<open>001\<close> for C. The 253 leaves of count
  zero take part in the merges: they are joined first, into a node of weight 0. The last
  three merges join that node (\<open>less\<close>) with C (\<open>more\<close>) into the node of weight 2 at
  address 508, then that node (\<open>less\<close>) with B (\<open>more\<close>) into the node of weight 5 at
  address 509, then that node (\<open>less\<close>) with A (\<open>more\<close>) into the root of weight 11 at
  address 510.
\<close>

theorem abc_codes:
  "(case huffman ((replicate 256 0) [65 := 6, 66 := 3, 67 := 2]) of
      Inl e \<Rightarrow> False
    | Inr ct \<Rightarrow>
        get_code ct 65 = ''1'' \<and> get_code ct 66 = ''01'' \<and> get_code ct 67 = ''001'' \<and>
        root ct = Some 510 \<and>
        store ct ! 510 = \<lparr> count = 11, parent = None, more_child = Some 65, less_child = Some 509 \<rparr> \<and>
        store ct ! 509 = \<lparr> count = 5, parent = Some 510, more_child = Some 66, less_child = Some 508 \<rparr> \<and>
        count (store ct ! 508) = 2 \<and> parent (store ct ! 508) = Some 509 \<and>
        more_child (store ct ! 508) = Some 67 \<and>
        (case less_child (store ct ! 508) of None \<Rightarrow> False | Some z \<Rightarrow> count (store ct ! z) = 0) \<and>
        store ct ! 65 = \<lparr> count = 6, parent = Some 510, more_child = None, less_child = None \<rparr> \<and>
        store ct ! 66 = \<lparr> count = 3, parent = Some 509, more_child = None, less_child = None \<rparr> \<and>
        store ct ! 67 = \<lparr> count = 2, parent = Some 508, more_child = None, less_child = None \<rparr>)"
  using huffman_abc by auto


text \<open>
  C8. A walker starts at the root. With \<open>current\<close> at a node \<open>c\<close>, \<open>process_bit\<close> moves it
  to the \<open>more\<close> child of \<open>c\<close> on the bit 1 and to the \<open>less\<close> child on the bit 0. When
  \<open>current\<close> is at a node without \<open>more\<close> child, \<open>code_finished\<close> returns that node's
  index \<open>c\<close> (its offset in \<open>leaves\<close>) and moves \<open>current\<close> back to the root; at any other
  node it returns \<open>-1\<close> and leaves the walker as it is. In the tree built from a frequency
  table (256 counts, none negative, with a sum below \<open>LONG_MAX\<close>) the root has children,
  the nodes without \<open>more\<close> child are exactly the leaves \<open>0..255\<close>, each with the index
  of its symbol, and both children of every other node are nodes of the tree, so a walk
  never leaves the tree.
\<close>

theorem walker_transitions:
  "current (Walker_init ct) = root ct \<and> tree (Walker_init ct) = ct \<and>
   (current w = Some c \<longrightarrow>
      process_bit w 1 = Inr (w \<lparr> current := more_child (store (tree w) ! c) \<rparr>) \<and>
      process_bit w 0 = Inr (w \<lparr> current := less_child (store (tree w) ! c) \<rparr>) \<and>
      (more_child (store (tree w) ! c) = None \<longrightarrow>
         code_finished w = Inr (int c, w \<lparr> current := root (tree w) \<rparr>)) \<and>
      (more_child (store (tree w) ! c) \<noteq> None \<longrightarrow> code_finished w = Inr (- 1, w))) \<and>
   (valid_counts cs \<longrightarrow>
      (\<exists>h r. huffman cs = Inr h \<and> root h = Some r \<and> 256 \<le> r \<and> r < 511 \<and>
         (\<forall>a<511. (more_child (store h ! a) = None \<longleftrightarrow> a < 256) \<and>
                   (less_child (store h ! a) = None \<longleftrightarrow> a < 256) \<and>
                   (256 \<le> a \<longrightarrow> (\<exists>l m. less_child (store h ! a) = Some l \<and> l < 511 \<and>
                                         more_child (store h ! a) = Some m \<and> m < 511)))))"
proof (intro conjI impI)
  assume valid: "valid_counts cs"
  from huffman_built[OF valid]
  obtain ct ct' t where *: "build_tree (puff_analysis CodeTree_initialize cs) = Inr ct"
      "build_codes ct = Inr ct'" "store ct' = store ct" "root ct' = root ct"
      "tree_ok (store ct) None t" "wf_tree t" "addrs t = {..<511}" "root ct = Some 510"
    by blast
  have ch: "(more_child (store ct' ! a) = None \<longleftrightarrow> a < 256) \<and>
            (less_child (store ct' ! a) = None \<longleftrightarrow> a < 256) \<and>
            (256 \<le> a \<longrightarrow> (\<exists>l m. less_child (store ct' ! a) = Some l \<and> l < 511 \<and>
                                  more_child (store ct' ! a) = Some m \<and> m < 511))" if "a < 511" for a
    using tree_ok_children[OF *(5,6), of a] that *(7) by (cases "a < 256") (auto simp: *(3))
  have "huffman cs = Inr ct'" using *(1,2) by (simp add: huffman_def)
  then show "\<exists>h r. huffman cs = Inr h \<and> root h = Some r \<and> 256 \<le> r \<and> r < 511 \<and>
         (\<forall>a<511. (more_child (store h ! a) = None \<longleftrightarrow> a < 256) \<and>
                   (less_child (store h ! a) = None \<longleftrightarrow> a < 256) \<and>
                   (256 \<le> a \<longrightarrow> (\<exists>l m. less_child (store h ! a) = Some l \<and> l < 511 \<and>
                                         more_child (store h ! a) = Some m \<and> m < 511)))"
    using ch *(4,8) by (intro exI[of _ ct'] exI[of _ 510]) simp
qed (simp_all add: Walker_init_def process_bit_def code_finished_def)

theorem walker_transitions_witness:
  "process_bit (Walker_init two_leaves) 1 = Inr \<lparr> tree = two_leaves, current = Some 1 \<rparr> \<and>
   process_bit (Walker_init two_leaves) 0 = Inr \<lparr> tree = two_leaves, current = Some 0 \<rparr> \<and>
   code_finished (Walker_init two_leaves) = Inr (- 1, Walker_init two_leaves) \<and>
   code_finished \<lparr> tree = two_leaves, current = Some 1 \<rparr> = Inr (1, Walker_init two_leaves) \<and>
   valid_counts ((replicate 256 0) [65 := 6, 66 := 3, 67 := 2]) \<and>
   (\<exists>h r. huffman ((replicate 256 0) [65 := 6, 66 := 3, 67 := 2]) = Inr h \<and> root h = Some r \<and>
      256 \<le> r \<and> more_child (store h ! r) \<noteq> None \<and> more_child (store h ! 65) = None)"
proof -
  have w: "Walker_init two_leaves = \<lparr> tree = two_leaves, current = Some 2 \<rparr>"
    by (simp add: Walker_init_def two_leaves_def)
  have s: "store two_leaves ! 2 = \<lparr> count = 3, parent = None, more_child = Some 1, less_child = Some 0 \<rparr>"
      "store two_leaves ! Suc 0 = \<lparr> count = 2, parent = Some 2, more_child = None, less_child = None \<rparr>"
      "root two_leaves = Some 2"
    by (simp_all add: two_leaves_def)
  note a = walker_transitions[of two_leaves "\<lparr> tree = two_leaves, current = Some 2 \<rparr>" 2
      "(replicate 256 0) [65 := 6, 66 := 3, 67 := 2]"]
  note b = walker_transitions[of two_leaves "\<lparr> tree = two_leaves, current = Some 1 \<rparr>" 1
      "(replicate 256 0) [65 := 6, 66 := 3, 67 := 2]"]
  from a valid_counts_abc obtain h r where h:
      "huffman ((replicate 256 0) [65 := 6, 66 := 3, 67 := 2]) = Inr h" "root h = Some r"
      "256 \<le> r" "r < 511"
      "\<forall>a<511. (more_child (store h ! a) = None \<longleftrightarrow> a < 256)"
    by blast
  have "more_child (store h ! r) \<noteq> None" "more_child (store h ! 65) = None"
    using h(3,4,5) by auto
  then show ?thesis using a b h(1,2,3) valid_counts_abc by (simp add: w s)
qed





end
